theory Spec2Isabelle
  imports Main "HOL-Library.Word"
begin

unbundle bit_operations_syntax

section \<open>Primitive layer\<close>

text \<open>
  The repository is built for amd64 (the compare-and-swap primitives are amd64
  assembly), so \<open>uintptr\<close>, \<open>uint\<close> and \<open>int\<close> are 64 bits wide and
  \<open>unsafe.Pointer\<close> is a 64-bit address. \<open>int32\<close> and \<open>uint32\<close> are both
  \<open>32 word\<close>; the code's signed reading of a word is \<open>sint\<close>.
\<close>

type_synonym uintptr = "64 word"
type_synonym uint32 = "32 word"
type_synonym int32 = "32 word"
type_synonym pointer = "64 word"

text \<open>\<open>var Null unsafe.Pointer\<close>: the zero value of a pointer.\<close>

definition Null :: pointer where
  "Null = 0"

text \<open>\<open>UpSz = unsafe.Sizeof(uintptr(0))\<close>, in bytes.\<close>

definition UpSz :: uintptr where
  "UpSz = 8"

datatype error =
    OutOfAllocation  \<comment> \<open>an unsafe pointer computed outside the backing array\<close>
  | IndexOutOfRange  \<comment> \<open>the runtime panic of a slice index\<close>
  | TurnInThePast    \<comment> \<open>\<open>panic("turn is in the past")\<close>\<close>

text \<open>
  Concurrency. A call runs on a shared state that other goroutines change while it
  runs. What the others do is a schedule: a list of state transformers. One entry of
  the schedule is applied before each atomic \<open>Load\<close> and \<open>CompareAndSwap\<close> of the call
  and at each point where it yields or blocks (\<open>runtime.Gosched\<close>, \<open>cond.Wait\<close>, the futex
  \<open>Wait\<close>); points that follow each other with no action of the call in between share
  one entry. Plain accesses, atomic stores and atomic adds act on the state as it is
  then. A call whose schedule is used up before it returns has not returned: its
  value is \<open>None\<close>. The schedule \<open>replicate n id\<close> is the call running alone.
\<close>

type_synonym 's sched = "('s \<Rightarrow> 's) list"

text \<open>
  \<open>CompareAndSwapUintptr(addr, old, new) (fresh, swapped)\<close>. The first argument is the
  content of \<open>addr\<close> when the instruction executes; the result is the content of
  \<open>addr\<close> afterwards, \<open>fresh\<close> and \<open>swapped\<close>. On success \<open>fresh\<close> is \<open>new\<close>, on failure
  it is the value found.
\<close>

definition CompareAndSwapUintptr :: "uintptr \<Rightarrow> uintptr \<Rightarrow> uintptr \<Rightarrow> uintptr \<times> uintptr \<times> bool" where
  "CompareAndSwapUintptr cur old new =
     (if cur = old then (new, new, True) else (cur, cur, False))"

definition CompareAndSwapUint32 :: "uint32 \<Rightarrow> uint32 \<Rightarrow> uint32 \<Rightarrow> uint32 \<times> uint32 \<times> bool" where
  "CompareAndSwapUint32 cur old new =
     (if cur = old then (new, new, True) else (cur, cur, False))"

text \<open>
  \<open>Next2\<close>: \<open>v--; for i := uintptr(1); i < UpSz<<3; i <<= 1 { v |= v >> i }; return v + 1\<close>.
  The counter starts at 1 and is doubled while it is below 64, so it is never 0; the
  guard \<open>0 < i\<close> only records that, for the termination proof.
\<close>

function Next2_loop :: "uintptr \<Rightarrow> uintptr \<Rightarrow> uintptr" where
  "Next2_loop i v =
     (if 0 < i \<and> i < push_bit 3 UpSz
      then Next2_loop (push_bit 1 i) (v OR drop_bit (unat i) v)
      else v)"
  by pat_completeness auto
termination
proof (relation "measure (\<lambda>(i, v). 64 - unat i)")
  show "wf (measure (\<lambda>(i::uintptr, v::uintptr). 64 - unat i))"
    by simp
next
  fix i v :: uintptr
  assume a: "0 < i \<and> i < push_bit 3 UpSz"
  then have pos: "0 < unat i"
    by (simp add: word_less_nat_alt)
  from a have lt: "unat i < 64"
    by (simp add: UpSz_def word_less_nat_alt)
  have "unat (push_bit 1 i) = 2 * unat i"
    using lt by (simp add: push_bit_eq_mult unat_word_ariths)
  with pos lt show "((push_bit 1 i, v OR drop_bit (unat i) v), (i, v))
        \<in> measure (\<lambda>(i, v). 64 - unat i)"
    by simp
qed

declare Next2_loop.simps [simp del]

definition Next2 :: "uintptr \<Rightarrow> uintptr" where
  "Next2 v = Next2_loop 1 (v - 1) + 1"


section \<open>The Vyukov cell-array queues\<close>

subsection \<open>Cells and the queue header\<close>

text \<open>
  \<open>type cell struct { seq uintptr; ptr unsafe.Pointer; _pad ... }\<close>, the same in all
  four packages. The padding holds no data.
\<close>

record cell =
  seq :: uintptr
  ptr :: pointer

text \<open>
  \<open>mpmcdvq.Queue\<close> (and, field for field, \<open>spmcdvq.Queue\<close>).
  \<open>buf\<close> is the backing array that \<open>New\<close> makes, pad cell included; \<open>bufPtr\<close> is the
  address of \<open>buf[1]\<close>, so that \<open>bufPtr + cellSz * k\<close> is the address of \<open>buf[k + 1]\<close>.
  The field \<open>mask\<close> is called \<open>qmask\<close> here.
\<close>

record Queue =
  qmask :: uintptr
  buf :: "cell list"
  enqPos :: uintptr
  deqPos :: uintptr

text \<open>
  \<open>(*cell)(unsafe.Pointer(uintptr(q.bufPtr) + cellSz * k))\<close>. The address is inside the
  backing array when \<open>k + 1\<close> is an index of it; any other address is not memory of
  the queue, and an access there is reported as \<open>OutOfAllocation\<close>.
\<close>

definition cell_at :: "Queue \<Rightarrow> uintptr \<Rightarrow> cell option" where
  "cell_at q k =
     (if unat k + 1 < length (buf q) then Some (buf q ! (unat k + 1)) else None)"

definition cell_store :: "Queue \<Rightarrow> uintptr \<Rightarrow> cell \<Rightarrow> Queue" where
  "cell_store q k c = q\<lparr>buf := (buf q)[unat k + 1 := c]\<rparr>"

subsection \<open>New\<close>

text \<open>
  \<open>for i := uintptr(0); i < size2+1; i++ { buf[i].seq = i - 1 }\<close>, on the zeroed array
  that \<open>make([]cell, size2+1)\<close> returns. The bound of the loop is the length of the
  array, so the index is always in range. The limits of the allocator are not part of
  the model.
\<close>

function New_loop :: "uintptr \<Rightarrow> uintptr \<Rightarrow> cell list \<Rightarrow> cell list" where
  "New_loop i n b =
     (if i < n
      then New_loop (i + 1) n (b[unat i := (b ! unat i)\<lparr>seq := i - 1\<rparr>])
      else b)"
  by pat_completeness auto
termination
proof (relation "measure (\<lambda>(i, n, b). unat n - unat i)")
  show "wf (measure (\<lambda>(i::uintptr, n::uintptr, b::cell list). unat n - unat i))"
    by simp
next
  fix i n :: uintptr and b :: "cell list"
  assume a: "i < n"
  then have lt: "unat i < unat n"
    by (simp add: word_less_nat_alt)
  have "unat n < 2 ^ 64"
    using unsigned_less [of n] by simp
  with lt have "unat (i + 1) = unat i + 1"
    by (simp add: unat_word_ariths)
  with lt show "((i + 1, n, b[unat i := (b ! unat i)\<lparr>seq := i - 1\<rparr>]), (i, n, b))
        \<in> measure (\<lambda>(i, n, b). unat n - unat i)"
    by simp
qed

declare New_loop.simps [simp del]

definition New :: "uintptr \<Rightarrow> Queue" where
  "New sz =
     (let size2 = Next2 sz;
          b = replicate (unat (size2 + 1)) \<lparr>seq = 0, ptr = Null\<rparr>;
          b = New_loop 0 (size2 + 1) b
      in \<lparr>qmask = size2 - 1, buf = b, enqPos = 0, deqPos = 0\<rparr>)"

subsection \<open>The multi-producer multi-consumer queue\<close>

text \<open>
  The loop of \<open>TryEnqueue\<close>, from the load of \<open>c.seq\<close> on; \<open>pos\<close> is the local copy of
  \<open>enqPos\<close>. After the winning compare-and-swap \<open>pos\<close> holds the fresh value
  \<open>pos + 1\<close>, which the final store publishes as the sequence number.
\<close>

fun TryEnqueue_loop ::
  "pointer \<Rightarrow> uintptr \<Rightarrow> Queue sched \<Rightarrow> Queue \<Rightarrow> (error + Queue \<times> bool) option" where
  "TryEnqueue_loop p pos [] q = None"
| "TryEnqueue_loop p pos (e # es) q =
     (let q = e q;
          k = pos AND qmask q
      in case cell_at q k of
           None \<Rightarrow> Some (Inl OutOfAllocation)
         | Some c \<Rightarrow>
             let cmp = seq c - pos
             in if cmp = 0 then
                  (case es of
                     [] \<Rightarrow> None
                   | e' # es' \<Rightarrow>
                       let q = e' q;
                           (m, fresh, swapped) = CompareAndSwapUintptr (enqPos q) pos (pos + 1);
                           q = q\<lparr>enqPos := m\<rparr>
                       in if swapped then
                            (case cell_at q k of
                               None \<Rightarrow> Some (Inl OutOfAllocation)
                             | Some c \<Rightarrow>
                                 let q = cell_store q k (c\<lparr>ptr := p\<rparr>);
                                     q = cell_store q k (c\<lparr>ptr := p, seq := fresh\<rparr>)
                                 in Some (Inr (q, True)))
                          else TryEnqueue_loop p fresh es' q)
                else if cmp <s 0 then Some (Inr (q, False))
                else
                  (case es of
                     [] \<Rightarrow> None
                   | e' # es' \<Rightarrow>
                       let q = e' q
                       in TryEnqueue_loop p (enqPos q) es' q))"

fun TryEnqueue :: "pointer \<Rightarrow> Queue sched \<Rightarrow> Queue \<Rightarrow> (error + Queue \<times> bool) option" where
  "TryEnqueue p [] q = None"
| "TryEnqueue p (e # es) q = (let q = e q in TryEnqueue_loop p (enqPos q) es q)"

text \<open>
  The loop of \<open>TryDequeue\<close>. The final store is \<open>pos + q.mask\<close> with the fresh
  \<open>pos\<close>, one more than the position that was claimed.
\<close>

fun TryDequeue_loop ::
  "uintptr \<Rightarrow> Queue sched \<Rightarrow> Queue \<Rightarrow> (error + Queue \<times> pointer \<times> bool) option" where
  "TryDequeue_loop pos [] q = None"
| "TryDequeue_loop pos (e # es) q =
     (let q = e q;
          k = pos AND qmask q
      in case cell_at q k of
           None \<Rightarrow> Some (Inl OutOfAllocation)
         | Some c \<Rightarrow>
             let cmp = seq c - (pos + 1)
             in if cmp = 0 then
                  (case es of
                     [] \<Rightarrow> None
                   | e' # es' \<Rightarrow>
                       let q = e' q;
                           (m, fresh, swapped) = CompareAndSwapUintptr (deqPos q) pos (pos + 1);
                           q = q\<lparr>deqPos := m\<rparr>
                       in if swapped then
                            (case cell_at q k of
                               None \<Rightarrow> Some (Inl OutOfAllocation)
                             | Some c \<Rightarrow>
                                 let p = ptr c;
                                     q = cell_store q k (c\<lparr>ptr := Null\<rparr>);
                                     q = cell_store q k (c\<lparr>ptr := Null, seq := fresh + qmask q\<rparr>)
                                 in Some (Inr (q, p, True)))
                          else TryDequeue_loop fresh es' q)
                else if cmp <s 0 then Some (Inr (q, Null, False))
                else
                  (case es of
                     [] \<Rightarrow> None
                   | e' # es' \<Rightarrow>
                       let q = e' q
                       in TryDequeue_loop (deqPos q) es' q))"

fun TryDequeue :: "Queue sched \<Rightarrow> Queue \<Rightarrow> (error + Queue \<times> pointer \<times> bool) option" where
  "TryDequeue [] q = None"
| "TryDequeue (e # es) q = (let q = e q in TryDequeue_loop (deqPos q) es q)"

subsection \<open>The single-sided operations\<close>

text \<open>
  \<open>spscdvq.Queue\<close> holds a slice, \<open>cells: cells[1:]\<close>, so an index is checked by the
  runtime. The field \<open>mask\<close> is called \<open>spsc_mask\<close> here, and the other fields carry the
  same prefix.
\<close>

record spsc_Queue =
  spsc_mask :: uintptr
  spsc_cells :: "cell list"
  spsc_enqPos :: uintptr
  spsc_deqPos :: uintptr

text \<open>
  \<open>spscdvq.New\<close>: the loop is the one of \<open>mpmcdvq.New\<close>, and the queue keeps the array
  without its pad cell.
\<close>

definition spsc_New :: "uintptr \<Rightarrow> spsc_Queue" where
  "spsc_New sz =
     (let size2 = Next2 sz;
          cells = replicate (unat (size2 + 1)) \<lparr>seq = 0, ptr = Null\<rparr>;
          cells = New_loop 0 (size2 + 1) cells
      in \<lparr>spsc_mask = size2 - 1, spsc_cells = drop 1 cells,
          spsc_enqPos = 0, spsc_deqPos = 0\<rparr>)"

text \<open>
  The single-sided operations have no loop and one atomic load, which is their first
  access to shared memory: what the other side did before it is part of the state they
  start in, and after it they work on a position and a cell that only they use. They
  are functions of that state. The test is the unsigned \<open><\<close> of two \<open>uintptr\<close>.
\<close>

definition spsc_TryEnqueue :: "pointer \<Rightarrow> spsc_Queue \<Rightarrow> error + spsc_Queue \<times> bool" where
  "spsc_TryEnqueue p q =
     (let k = unat (spsc_enqPos q AND spsc_mask q)
      in if length (spsc_cells q) \<le> k then Inl IndexOutOfRange
         else
           let c = spsc_cells q ! k
           in if seq c < spsc_enqPos q then Inr (q, False)
              else
                let q = q\<lparr>spsc_enqPos := spsc_enqPos q + 1\<rparr>;
                    c = c\<lparr>ptr := p\<rparr>;
                    c = c\<lparr>seq := spsc_enqPos q\<rparr>
                in Inr (q\<lparr>spsc_cells := (spsc_cells q)[k := c]\<rparr>, True))"

definition spsc_TryDequeue :: "spsc_Queue \<Rightarrow> error + spsc_Queue \<times> pointer \<times> bool" where
  "spsc_TryDequeue q =
     (let k = unat (spsc_deqPos q AND spsc_mask q)
      in if length (spsc_cells q) \<le> k then Inl IndexOutOfRange
         else
           let c = spsc_cells q ! k
           in if seq c < spsc_deqPos q + 1 then Inr (q, Null, False)
              else
                let q = q\<lparr>spsc_deqPos := spsc_deqPos q + 1\<rparr>;
                    p = ptr c;
                    c = c\<lparr>ptr := Null\<rparr>;
                    c = c\<lparr>seq := spsc_deqPos q + spsc_mask q\<rparr>
                in Inr (q\<lparr>spsc_cells := (spsc_cells q)[k := c]\<rparr>, p, True))"

text \<open>
  \<open>spmcdvq.Queue.TryEnqueue\<close>: the body of the single-producer single-consumer one, over
  the pointer to the cells. \<open>spmcdvq.Queue\<close> has the fields of \<open>mpmcdvq.Queue\<close>, and
  \<open>spmcdvq.Queue.TryDequeue\<close> repeats the text of \<open>TryDequeue\<close> above.
\<close>

definition spmc_TryEnqueue :: "pointer \<Rightarrow> Queue \<Rightarrow> error + Queue \<times> bool" where
  "spmc_TryEnqueue p q =
     (let k = enqPos q AND qmask q
      in case cell_at q k of
           None \<Rightarrow> Inl OutOfAllocation
         | Some c \<Rightarrow>
             if seq c < enqPos q then Inr (q, False)
             else
               let q = q\<lparr>enqPos := enqPos q + 1\<rparr>;
                   c = c\<lparr>ptr := p\<rparr>;
                   c = c\<lparr>seq := enqPos q\<rparr>
               in Inr (cell_store q k c, True))"

text \<open>
  Modelled from the spec: the declaration of \<open>mpscdvq.Queue\<close>, which is not among the
  sources. The spec gives every queue header the mask, the pointer or slice to the
  cells, \<open>enqPos\<close> and \<open>deqPos\<close>, and the operations of \<open>mpscdvq\<close> reach the cells
  through \<open>bufPtr\<close>, as those of \<open>mpmcdvq\<close> do: the record \<open>Queue\<close> serves.
  \<open>mpscdvq.Queue.TryDequeue\<close> is in the sources and is what the definition follows;
  \<open>mpscdvq.Queue.TryEnqueue\<close> repeats the text of \<open>TryEnqueue\<close> above.
\<close>

definition mpsc_TryDequeue :: "Queue \<Rightarrow> error + Queue \<times> pointer \<times> bool" where
  "mpsc_TryDequeue q =
     (let k = deqPos q AND qmask q
      in case cell_at q k of
           None \<Rightarrow> Inl OutOfAllocation
         | Some c \<Rightarrow>
             if seq c < deqPos q + 1 then Inr (q, Null, False)
             else
               let q = q\<lparr>deqPos := deqPos q + 1\<rparr>;
                   p = ptr c;
                   c = c\<lparr>ptr := Null\<rparr>;
                   c = c\<lparr>seq := deqPos q + qmask q\<rparr>
               in Inr (cell_store q k c, p, True))"

section \<open>The turn broker\<close>

definition turnShift :: nat where
  "turnShift = 6"

definition turnWaitMask :: uintptr where
  "turnWaitMask = push_bit turnShift 1 - 1"

definition minSpins :: uint32 where
  "minSpins = 4"

definition maxSpins :: uint32 where
  "maxSpins = 2000"

text \<open>\<open>math.MaxUint32>>(turnShift+1)\<close>, the bound of the check in \<open>waitFor\<close>.\<close>

definition maxWait :: uintptr where
  "maxWait = drop_bit (turnShift + 1) 4294967295"

definition getTurnNumber :: "uintptr \<Rightarrow> uintptr" where
  "getTurnNumber turn = drop_bit turnShift (turn AND NOT turnWaitMask)"

definition getTurnWait :: "uintptr \<Rightarrow> uintptr" where
  "getTurnWait turn = turn AND turnWaitMask"

definition encodeTurn :: "uintptr \<Rightarrow> uintptr \<Rightarrow> uintptr" where
  "encodeTurn turnNumber turnWait =
     (let turnWait = (if turnWait > turnWaitMask then turnWaitMask else turnWait)
      in push_bit turnShift turnNumber OR turnWait)"

text \<open>
  The memory that \<open>waitFor\<close> works on: the futex word \<open>t.f.State\<close> and the word that
  \<open>spinCutoff\<close> points to.
\<close>

record broker =
  State :: uintptr
  spinCutoff :: uint32

text \<open>\<open>futexChannel\<close>: \<open>1 << (turn & ((upSz << 3) - 1))\<close>, the wait mask of a turn.\<close>

definition futexChannel :: "uintptr \<Rightarrow> uintptr" where
  "futexChannel turn = push_bit (unat (turn AND (push_bit 3 UpSz - 1))) 1"

text \<open>
  \<open>Futex.Wait(expectState, waitMask)\<close> of the package \<open>futex\<close>. Under the lock of its
  bucket it loads \<open>State\<close> and returns \<open>ValueChanged\<close> when that differs from
  \<open>expectState\<close>; otherwise it links a node into the list of the bucket and parks
  until \<open>Wake\<close> signals the node, and returns \<open>Awoken\<close>. It writes neither \<open>State\<close>
  nor the spin cutoff, and \<open>waitFor\<close> ignores its result. The buckets and their
  nodes are not part of the model: what the caller finds when it goes on is what the
  other goroutines left, and the call is the step \<open>e\<close> of the schedule.
\<close>

definition futex_Wait :: "uintptr \<Rightarrow> uintptr \<Rightarrow> (broker \<Rightarrow> broker) \<Rightarrow> broker \<Rightarrow> broker" where
  "futex_Wait expectState waitMask e s = e s"

text \<open>
  Modelled from the spec: \<open>primitive.Pause()\<close>, whose assembly is not among the
  sources. It is a hint to the processor that the caller is in a contended spin, and
  it changes no state.
\<close>

definition Pause :: "broker \<Rightarrow> broker" where
  "Pause s = s"

text \<open>
  The loop of \<open>waitFor\<close>. It returns the number of tries when the turn has come. The
  load of the state that follows the futex \<open>Wait\<close> shares the entry of the schedule
  with it.
\<close>

fun waitFor_loop ::
  "uintptr \<Rightarrow> uint32 \<Rightarrow> uint32 \<Rightarrow> uintptr \<Rightarrow> broker sched \<Rightarrow> broker
     \<Rightarrow> (error + uint32 \<times> broker sched \<times> broker) option" where
  "waitFor_loop turn spinCount tries state [] s =
     (let curTurn = getTurnNumber state
      in if curTurn = turn then Some (Inr (tries, [], s))
         else if turn - curTurn \<ge> maxWait then Some (Inl TurnInThePast)
         else None)"
| "waitFor_loop turn spinCount tries state (e # es) s =
     (let curTurn = getTurnNumber state
      in if curTurn = turn then Some (Inr (tries, e # es, s))
         else
           let waitingFor = turn - curTurn
           in if waitingFor \<ge> maxWait then Some (Inl TurnInThePast)
              else if tries < spinCount then
                (let s = Pause s;
                     s = e s
                 in waitFor_loop turn spinCount (tries + 1) (State s) es s)
              else
                let curWaitingFor = getTurnWait state
                in if waitingFor \<le> curWaitingFor then
                     (let newState = state;
                          s = futex_Wait newState (futexChannel turn) e s
                      in waitFor_loop turn spinCount (tries + 1) (State s) es s)
                   else
                     let newState = encodeTurn curTurn waitingFor
                     in if state \<noteq> newState then
                          (let s = e s;
                               (m, fresh, swapped) = CompareAndSwapUintptr (State s) state newState;
                               s = s\<lparr>State := m\<rparr>
                           in if \<not> swapped then
                                waitFor_loop turn spinCount (tries + 1) fresh es s
                              else
                                (case es of
                                   [] \<Rightarrow> None
                                 | e' # es' \<Rightarrow>
                                     let s = futex_Wait newState (futexChannel turn) e' s
                                     in waitFor_loop turn spinCount (tries + 1) (State s) es' s))
                        else
                          (let s = futex_Wait newState (futexChannel turn) e s
                           in waitFor_loop turn spinCount (tries + 1) (State s) es s))"

text \<open>
  \<open>waitFor\<close>: the two loads, the loop, and the update of the spin cutoff. Go's \<open>int\<close>
  has 64 bits: \<open>int(x)\<close> of a \<open>uint32\<close> extends it with zeros, \<open>>>\<close> on an \<open>int\<close> keeps
  the sign, and \<open>uint32(...)\<close> keeps the low 32 bits. \<open>>>\<close> binds tighter than \<open>+\<close>.
\<close>

fun waitFor :: "uintptr \<Rightarrow> bool \<Rightarrow> broker sched \<Rightarrow> broker \<Rightarrow> (error + broker) option" where
  "waitFor turn updateSpinCutoff (e0 # e1 # es) s =
     (let s = e0 s;
          givenSpinCount = spinCutoff s;
          spinCount = (if updateSpinCutoff \<or> givenSpinCount = 0 then maxSpins else givenSpinCount);
          s = e1 s;
          state = State s
      in case waitFor_loop turn spinCount 0 state es s of
           None \<Rightarrow> None
         | Some (Inl err) \<Rightarrow> Some (Inl err)
         | Some (Inr (tries, es, s)) \<Rightarrow>
             if updateSpinCutoff \<or> givenSpinCount = 0 then
               (let spinUpdate =
                      (if tries \<ge> maxSpins then minSpins
                       else
                         let spinUpdate = minSpins;
                             dubTries = push_bit 1 tries;
                             spinUpdate = (if dubTries > spinUpdate then dubTries else spinUpdate);
                             spinUpdate = (if maxSpins < spinUpdate then maxSpins else spinUpdate)
                         in spinUpdate)
                in if givenSpinCount = 0 then Some (Inr (s\<lparr>spinCutoff := spinUpdate\<rparr>))
                   else
                     let spinUpdate =
                           (ucast ((ucast givenSpinCount :: 64 word)
                              + signed_drop_bit 3 (ucast spinUpdate - ucast givenSpinCount)) :: uint32)
                     in case es of
                          [] \<Rightarrow> None
                        | e # es' \<Rightarrow>
                            let s = e s;
                                (m, fresh, swapped) =
                                  CompareAndSwapUint32 (spinCutoff s) givenSpinCount spinUpdate
                            in Some (Inr (s\<lparr>spinCutoff := m\<rparr>)))
             else Some (Inr s))"
| "waitFor turn updateSpinCutoff es s = None"

section \<open>The folly-style queue\<close>

definition updateSpinFreqShift :: nat where
  "updateSpinFreqShift = 7"

text \<open>
  \<open>maybeUpdateSpin := ticket>>updateSpinFreqShift == 0\<close>, the flag that
  \<open>Queue.enqueue\<close> and \<open>Queue.dequeue\<close> compute from the ticket and hand, through the cell,
  to \<open>waitFor\<close> as \<open>updateSpinCutoff\<close>.
\<close>

definition enqueue_maybeUpdateSpin :: "uintptr \<Rightarrow> bool" where
  "enqueue_maybeUpdateSpin ticket = (drop_bit updateSpinFreqShift ticket = 0)"

definition dequeue_maybeUpdateSpin :: "uintptr \<Rightarrow> bool" where
  "dequeue_maybeUpdateSpin ticket = (drop_bit updateSpinFreqShift ticket = 0)"

section \<open>The blocking adapter\<close>

text \<open>
  \<open>type lock struct { write uint32; read uint32 }\<close> and
  \<open>type Block struct { waiters int32; counter uintptr; lock lock; cond *sync.Cond }\<close>.
  The condition variable has no data of its own in the model. The fields of the lock
  are called \<open>lwrite\<close> and \<open>lread\<close>, the lock of the block \<open>block_lock\<close>.
\<close>

record lock =
  lwrite :: uint32
  lread :: uint32

record Block =
  waiters :: int32
  counter :: uintptr
  block_lock :: lock

definition highBit :: uint32 where
  "highBit = push_bit 31 1"

text \<open>The loop of \<open>lock.TryRLock\<close>; \<open>rd\<close> is its local \<open>read\<close>.\<close>

fun TryRLock_loop :: "uint32 \<Rightarrow> Block sched \<Rightarrow> Block \<Rightarrow> (bool \<times> Block sched \<times> Block) option" where
  "TryRLock_loop rd [] b =
     (if rd AND highBit \<noteq> 0 then Some (False, [], b) else None)"
| "TryRLock_loop rd (e # es) b =
     (if rd AND highBit \<noteq> 0 then Some (False, e # es, b)
      else
        let b = e b;
            (m, fresh, swapped) = CompareAndSwapUint32 (lread (block_lock b)) rd (rd + 1);
            b = b\<lparr>block_lock := (block_lock b)\<lparr>lread := m\<rparr>\<rparr>
        in if swapped then Some (True, es, b)
           else TryRLock_loop fresh es b)"

fun TryRLock :: "Block sched \<Rightarrow> Block \<Rightarrow> (bool \<times> Block sched \<times> Block) option" where
  "TryRLock [] b = None"
| "TryRLock (e # es) b = (let b = e b in TryRLock_loop (lread (block_lock b)) es b)"

text \<open>\<open>lock.Unlock\<close>: \<open>atomic.AddUint32(&l.read, math.MaxUint32)\<close>.\<close>

definition Unlock :: "Block \<Rightarrow> Block" where
  "Unlock b = b\<lparr>block_lock := (block_lock b)\<lparr>lread := lread (block_lock b) + 4294967295\<rparr>\<rparr>"



text \<open>
  \<open>Block.Wait\<close>. Both loops start with \<open>runtime.Gosched()\<close> and the load of the
  counter, so one recursive function covers them. \<open>b.cond.Wait()\<close> is the method of
  \<open>sync.Cond\<close> on the locker \<open>&b.lock\<close>: it calls \<open>Unlock\<close> of the locker, parks, and on
  waking calls its \<open>Lock\<close>, which does nothing here.
\<close>

lemma TryRLock_loop_length:
  "TryRLock_loop rd es b = Some (got, es', b') \<Longrightarrow> length es' \<le> length es"
proof (induction es arbitrary: rd b)
  case Nil
  then show ?case
    by (simp split: if_splits)
next
  case (Cons e es)
  show ?case
  proof (cases "rd AND highBit \<noteq> 0")
    case True
    with Cons.prems show ?thesis
      by simp
  next
    case False
    show ?thesis
    proof (cases "lread (block_lock (e b)) = rd")
      case True
      with False Cons.prems show ?thesis
        by (auto simp: CompareAndSwapUint32_def Let_def)
    next
      case ne: False
      with False Cons.prems
      have "TryRLock_loop (lread (block_lock (e b))) es
              ((e b)\<lparr>block_lock := (block_lock (e b))\<lparr>lread := lread (block_lock (e b))\<rparr>\<rparr>)
            = Some (got, es', b')"
        by (simp add: CompareAndSwapUint32_def Let_def)
      from Cons.IH [OF this] show ?thesis
        by simp
    qed
  qed
qed

lemma TryRLock_length:
  "TryRLock es b = Some (got, es', b') \<Longrightarrow> length es' < length es"
proof (cases es)
  case Nil
  assume "TryRLock es b = Some (got, es', b')"
  with Nil show ?thesis
    by simp
next
  case (Cons e es0)
  assume "TryRLock es b = Some (got, es', b')"
  with Cons have "TryRLock_loop (lread (block_lock (e b))) es0 (e b) = Some (got, es', b')"
    by (simp add: Let_def)
  from TryRLock_loop_length [OF this] Cons show ?thesis
    by simp
qed

function Wait :: "uintptr \<Rightarrow> Block sched \<Rightarrow> Block \<Rightarrow> Block option" where
  "Wait primer [] b = None"
| "Wait primer (e # es) b =
     (let b = e b
      in if primer \<noteq> counter b then Some (b\<lparr>waiters := waiters b + (- 1)\<rparr>)
         else
           (case TryRLock es b of
              None \<Rightarrow> None
            | Some (got, es', b) \<Rightarrow>
                if \<not> got then Wait primer es' b
                else if primer \<noteq> counter b
                then Some (Unlock (b\<lparr>waiters := waiters b + (- 1)\<rparr>))
                else Wait primer es' (Unlock b)))"
  by pat_completeness auto
termination
  by (relation "measure (\<lambda>(primer, es, b). length es)")
    (auto dest: TryRLock_length)

section \<open>Notions used in the statements\<close>



text \<open>
  The arithmetic of the spin cutoff on unbounded integers, to compare the words of the
  code with: the sample taken from a number of tries, and the moving average that
  keeps seven eighths of the old value.
\<close>

definition spin_sample :: "nat \<Rightarrow> nat" where
  "spin_sample tries = (if 2000 \<le> tries then 4 else min 2000 (max 4 (2 * tries)))"

definition moving_average :: "int \<Rightarrow> int \<Rightarrow> int" where
  "moving_average g x = g + (x - g) div 8"

text \<open>
  \<open>y\<close> carries, at each position, the disjunction of the \<open>K\<close> bits of \<open>x\<close> from that
  position upwards: the state of the loop of \<open>Next2\<close> when its counter is \<open>K\<close>.
\<close>

definition smeared :: "nat \<Rightarrow> uintptr \<Rightarrow> uintptr \<Rightarrow> bool" where
  "smeared K x y \<longleftrightarrow> (\<forall>n. bit y n \<longleftrightarrow> (\<exists>j<K. bit x (n + j)))"

text \<open>
  Schedules in which no other goroutine changes \<open>waiters\<close>, and schedules in which
  none changes \<open>counter\<close>: on the first, the change of \<open>waiters\<close> over a call is the
  call's own.
\<close>

definition keeps_waiters :: "Block sched \<Rightarrow> bool" where
  "keeps_waiters es \<longleftrightarrow> (\<forall>e\<in>set es. \<forall>b. waiters (e b) = waiters b)"

definition keeps_counter :: "Block sched \<Rightarrow> bool" where
  "keeps_counter es \<longleftrightarrow> (\<forall>e\<in>set es. \<forall>b. counter (e b) = counter b)"

text \<open>
  The state that the other goroutines have made of \<open>s\<close> when the entries \<open>es\<close> of a
  schedule have been applied, the first entry first.
\<close>

definition after :: "'s sched \<Rightarrow> 's \<Rightarrow> 's" where
  "after es s = foldl (\<lambda>s e. e s) s es"

text \<open>
  A round of the loop of \<open>waitFor\<close> in which the call neither ends the loop nor panics
  nor compare-and-swaps: the turn has not come and is not in the past, and the call
  spins, or it parks on a state that already records its wait.
\<close>

definition spins_or_parks :: "uintptr \<Rightarrow> uint32 \<Rightarrow> uint32 \<Rightarrow> uintptr \<Rightarrow> bool" where
  "spins_or_parks turn spinCount tries state \<longleftrightarrow>
     getTurnNumber state \<noteq> turn \<and> turn - getTurnNumber state < maxWait
     \<and> (tries < spinCount
          \<or> turn - getTurnNumber state \<le> getTurnWait state
          \<or> state = encodeTurn (getTurnNumber state) (turn - getTurnNumber state))"

text \<open>
  An entry of a schedule that adds \<open>d\<close> to \<open>waiters\<close> whatever the state: the atomic
  adds of the \<open>Prime\<close>, \<open>Cancel\<close> and \<open>Wait\<close> calls of the other goroutines that fall into
  the entry, taken together.
\<close>

definition adds_waiters :: "(Block \<Rightarrow> Block) \<Rightarrow> int32 \<Rightarrow> bool" where
  "adds_waiters e d \<longleftrightarrow> (\<forall>b. waiters (e b) = waiters b + d)"


section \<open>Schedules\<close>

lemma after_Nil [simp]: "after [] s = s"
  by (simp add: after_def)

lemma after_Cons [simp]: "after (e # es) s = after es (e s)"
  by (simp add: after_def)

lemma after_append [simp]: "after (es @ es') s = after es' (after es s)"
  by (simp add: after_def)

lemma after_replicate_id [simp]: "after (replicate k id) s = s"
  by (induction k) simp_all

lemma after_take_replicate_id [simp]:
  "i \<le> k \<Longrightarrow> after (take i (replicate k id @ es)) s = s"
  by simp

section \<open>Properties of the turn broker's word\<close>

lemma turnWaitMask_mask: "turnWaitMask = mask 6"
  by (simp add: turnWaitMask_def turnShift_def mask_eq_exp_minus_1)

lemma low6_id: "(w::uintptr) \<le> 63 \<Longrightarrow> w AND mask 6 = w"
  by (rule less_mask_eq) (simp add: word_le_nat_alt word_less_nat_alt)

lemma wait_bits_of_or: "(push_bit 6 (t::uintptr) OR w) AND mask 6 = w AND mask 6"
  by (rule bit_eqI) (auto simp: bit_simps)

lemma turn_bits_of_or:
  "drop_bit 6 ((push_bit 6 (t::uintptr) OR (w AND mask 6)) AND NOT (mask 6)) = take_bit 58 t"
  by (rule bit_eqI) (auto simp: bit_simps)

lemma encodeTurn_clamp:
  "(if w > turnWaitMask then turnWaitMask else w) = min w 63"
  by (auto simp: turnWaitMask_mask min_def not_less mask_eq_exp_minus_1)

lemma getTurnWait_encodeTurn: "getTurnWait (encodeTurn t w) = min w 63"
proof -
  have "min w 63 \<le> (63::uintptr)" by simp
  then have "min w 63 AND mask 6 = min w 63" by (rule low6_id)
  then show ?thesis
    unfolding getTurnWait_def encodeTurn_def Let_def encodeTurn_clamp
    by (simp add: turnWaitMask_mask turnShift_def wait_bits_of_or)
qed

text \<open>The turn number that comes back is the low 58 bits of the one packed.\<close>

lemma getTurnNumber_encodeTurn: "getTurnNumber (encodeTurn t w) = take_bit 58 t"
proof -
  have "min w 63 \<le> (63::uintptr)" by simp
  then have e: "min w 63 AND mask 6 = min w 63" by (rule low6_id)
  have "drop_bit 6 ((push_bit 6 t OR (min w 63 AND mask 6)) AND NOT (mask 6)) = take_bit 58 t"
    by (rule turn_bits_of_or)
  then show ?thesis
    unfolding getTurnNumber_def encodeTurn_def Let_def encodeTurn_clamp
    by (simp only: turnWaitMask_mask turnShift_def e)
qed

lemma take_bit_58_id: "take_bit 58 (t::uintptr) = t \<longleftrightarrow> t < 2 ^ 58"
  by (simp add: take_bit_eq_mask mask_eq_iff_w2p word_size)

text \<open>
  Claim C5. Packing a turn number \<open>t\<close> and a waiter count \<open>w\<close> and reading the count
  back gives \<open>min w 63\<close>, where 63 is \<open>2 ^ turnShift - 1\<close>: the count saturates. Reading
  the turn number back gives \<open>t\<close> for every \<open>t\<close> below \<open>2 ^ 58\<close>, the turn numbers that
  fit in the 58 bits above the count.
\<close>

theorem encodeTurn_roundtrip:
  "getTurnWait (encodeTurn t w) = min w (2 ^ turnShift - 1)
   \<and> (2 :: uintptr) ^ turnShift - 1 = 63
   \<and> (t < 2 ^ 58 \<longrightarrow> getTurnNumber (encodeTurn t w) = t)"
  by (simp add: getTurnWait_encodeTurn getTurnNumber_encodeTurn take_bit_58_id turnShift_def)

theorem encodeTurn_roundtrip_witness:
  "getTurnWait (encodeTurn 5 100) = 63 \<and> (5 :: uintptr) < 2 ^ 58
   \<and> getTurnNumber (encodeTurn 5 100) = 5"
  using encodeTurn_roundtrip [of 5 100] by (simp add: turnShift_def)

section \<open>The adaptation flag of the folly-style queue\<close>

text \<open>The flag is set for the tickets below 128 and for no other.\<close>

lemma drop_bit_7_eq_0_iff: "drop_bit 7 (k::uintptr) = 0 \<longleftrightarrow> k < 128"
proof -
  have "drop_bit 7 k = 0 \<longleftrightarrow> take_bit 7 k = k"
    by (simp add: take_bit_eq_self_iff_drop_bit_eq_0)
  also have "\<dots> \<longleftrightarrow> k < 2 ^ 7"
    by (simp add: take_bit_eq_mask mask_eq_iff_w2p word_size)
  finally show ?thesis by simp
qed

lemma maybeUpdateSpin_iff:
  "enqueue_maybeUpdateSpin k = (k < 128)" "dequeue_maybeUpdateSpin k = (k < 128)"
  by (simp_all add: enqueue_maybeUpdateSpin_def dequeue_maybeUpdateSpin_def
      updateSpinFreqShift_def drop_bit_7_eq_0_iff)

text \<open>
  Claim C8 says that the flag \<open>maybeUpdateSpin\<close> is true exactly for the tickets that
  are multiples of 128. The code computes \<open>ticket >> 7 == 0\<close>: at the tickets 128 and
  256, multiples of 128, the flag is false on both paths, and at ticket 1, which is no
  multiple of 128, it is true.
\<close>

theorem maybeUpdateSpin_first_tickets:
  "enqueue_maybeUpdateSpin 128 = False \<and> dequeue_maybeUpdateSpin 128 = False
   \<and> enqueue_maybeUpdateSpin 256 = False \<and> dequeue_maybeUpdateSpin 256 = False
   \<and> enqueue_maybeUpdateSpin 1 = True \<and> dequeue_maybeUpdateSpin 1 = True"
  by (simp add: enqueue_maybeUpdateSpin_def dequeue_maybeUpdateSpin_def updateSpinFreqShift_def)

section \<open>The protocol of the multi-producer multi-consumer queue\<close>

lemma cell_at_enqPos_update [simp]: "cell_at (q\<lparr>enqPos := v\<rparr>) k = cell_at q k"
  by (simp add: cell_at_def)

lemma cell_at_deqPos_update [simp]: "cell_at (q\<lparr>deqPos := v\<rparr>) k = cell_at q k"
  by (simp add: cell_at_def)




subsection \<open>One round of the loop of TryEnqueue\<close>










subsection \<open>One round of the loop of TryDequeue\<close>

lemma qmask_cell_store [simp]: "qmask (cell_store q k c) = qmask q"
  by (simp add: cell_store_def)












section \<open>The full and empty tests where the positions wrap around\<close>

text \<open>
  A queue of two cells whose two positions have both reached \<open>2 ^ 64 - 1\<close> is empty:
  the cell of that position carries the sequence number \<open>2 ^ 64 - 1\<close>, one less than a
  dequeue needs. \<open>seq - (deqPos + 1)\<close> is \<open>- 1\<close> as a signed word, and \<open>deqPos + 1\<close>
  is 0 as an unsigned one.
\<close>

lemma spsc_TryDequeue_wrapped:
  "spsc_TryDequeue
     \<lparr>spsc_mask = 1, spsc_cells = [\<lparr>seq = 0, ptr = Null\<rparr>, \<lparr>seq = - 1, ptr = Null\<rparr>],
      spsc_enqPos = - 1, spsc_deqPos = - 1\<rparr>
   = Inr (\<lparr>spsc_mask = 1, spsc_cells = [\<lparr>seq = 0, ptr = Null\<rparr>, \<lparr>seq = 1, ptr = Null\<rparr>],
      spsc_enqPos = - 1, spsc_deqPos = 0\<rparr>, Null, True)"
  by (simp add: spsc_TryDequeue_def Let_def)

lemma mpsc_TryDequeue_wrapped:
  "mpsc_TryDequeue
     \<lparr>qmask = 1, buf = [\<lparr>seq = - 1, ptr = Null\<rparr>, \<lparr>seq = 0, ptr = Null\<rparr>, \<lparr>seq = - 1, ptr = Null\<rparr>],
      enqPos = - 1, deqPos = - 1\<rparr>
   = Inr (\<lparr>qmask = 1, buf = [\<lparr>seq = - 1, ptr = Null\<rparr>, \<lparr>seq = 0, ptr = Null\<rparr>, \<lparr>seq = 1, ptr = Null\<rparr>],
      enqPos = - 1, deqPos = 0\<rparr>, Null, True)"
  by (simp add: mpsc_TryDequeue_def cell_at_def cell_store_def Let_def)

lemma TryDequeue_wrapped:
  "TryDequeue [id, id]
     \<lparr>qmask = 1, buf = [\<lparr>seq = - 1, ptr = Null\<rparr>, \<lparr>seq = 0, ptr = Null\<rparr>, \<lparr>seq = - 1, ptr = Null\<rparr>],
      enqPos = - 1, deqPos = - 1\<rparr>
   = Some (Inr (\<lparr>qmask = 1, buf = [\<lparr>seq = - 1, ptr = Null\<rparr>, \<lparr>seq = 0, ptr = Null\<rparr>, \<lparr>seq = - 1, ptr = Null\<rparr>],
      enqPos = - 1, deqPos = - 1\<rparr>, Null, False))"
  by (simp add: cell_at_def Let_def word_sless_alt)

text \<open>
  A queue of two cells that holds the pointers 1 and 2, enqueued at the positions
  \<open>2 ^ 64 - 2\<close> and \<open>2 ^ 64 - 1\<close>, is full, and its \<open>enqPos\<close> is 0. The cell of position
  0 still carries the sequence number \<open>2 ^ 64 - 1\<close>: \<open>seq - enqPos\<close> is \<open>- 1\<close> as a signed
  word.
\<close>

lemma spsc_TryEnqueue_wrapped:
  "spsc_TryEnqueue 3
     \<lparr>spsc_mask = 1, spsc_cells = [\<lparr>seq = - 1, ptr = 1\<rparr>, \<lparr>seq = 0, ptr = 2\<rparr>],
      spsc_enqPos = 0, spsc_deqPos = - 2\<rparr>
   = Inr (\<lparr>spsc_mask = 1, spsc_cells = [\<lparr>seq = 1, ptr = 3\<rparr>, \<lparr>seq = 0, ptr = 2\<rparr>],
      spsc_enqPos = 1, spsc_deqPos = - 2\<rparr>, True)"
  by (simp add: spsc_TryEnqueue_def Let_def)

lemma spmc_TryEnqueue_wrapped:
  "spmc_TryEnqueue 3
     \<lparr>qmask = 1, buf = [\<lparr>seq = - 1, ptr = Null\<rparr>, \<lparr>seq = - 1, ptr = 1\<rparr>, \<lparr>seq = 0, ptr = 2\<rparr>],
      enqPos = 0, deqPos = - 2\<rparr>
   = Inr (\<lparr>qmask = 1, buf = [\<lparr>seq = - 1, ptr = Null\<rparr>, \<lparr>seq = 1, ptr = 3\<rparr>, \<lparr>seq = 0, ptr = 2\<rparr>],
      enqPos = 1, deqPos = - 2\<rparr>, True)"
  by (simp add: spmc_TryEnqueue_def cell_at_def cell_store_def Let_def)

lemma TryEnqueue_wrapped:
  "TryEnqueue 3 [id, id]
     \<lparr>qmask = 1, buf = [\<lparr>seq = - 1, ptr = Null\<rparr>, \<lparr>seq = - 1, ptr = 1\<rparr>, \<lparr>seq = 0, ptr = 2\<rparr>],
      enqPos = 0, deqPos = - 2\<rparr>
   = Some (Inr (\<lparr>qmask = 1, buf = [\<lparr>seq = - 1, ptr = Null\<rparr>, \<lparr>seq = - 1, ptr = 1\<rparr>, \<lparr>seq = 0, ptr = 2\<rparr>],
      enqPos = 0, deqPos = - 2\<rparr>, False))"
  by (simp add: cell_at_def Let_def word_sless_alt)

lemma wrapped_differences_negative:
  "(- 1 :: uintptr) - (- 1 + 1) <s 0" "(- 1 :: uintptr) - 0 <s 0"
  by (simp_all add: word_sless_alt)

text \<open>
  Claim C4 says that in all four variants the full test and the empty test read the
  difference as a signed word, so that the operation fails exactly when the signed
  difference is negative, also where the values wrap around. The two queues above
  have a negative signed difference. On the empty one, \<open>TryDequeue\<close> of the
  single-producer single-consumer queue and of the multi-producer single-consumer
  queue return true with the pointer \<open>Null\<close>; on the full one, \<open>TryEnqueue\<close> of the
  single-producer single-consumer queue and of the single-producer multi-consumer
  queue return true and overwrite the pointer 1, which was never dequeued. These four
  operations compare with the unsigned \<open><\<close>. The multi-producer multi-consumer
  operations, which compare signed, return false on the same two queues.
\<close>

theorem single_sided_tests_unsigned:
  "spsc_TryDequeue
     \<lparr>spsc_mask = 1, spsc_cells = [\<lparr>seq = 0, ptr = Null\<rparr>, \<lparr>seq = - 1, ptr = Null\<rparr>],
      spsc_enqPos = - 1, spsc_deqPos = - 1\<rparr>
   = Inr (\<lparr>spsc_mask = 1, spsc_cells = [\<lparr>seq = 0, ptr = Null\<rparr>, \<lparr>seq = 1, ptr = Null\<rparr>],
      spsc_enqPos = - 1, spsc_deqPos = 0\<rparr>, Null, True)
   \<and> mpsc_TryDequeue
     \<lparr>qmask = 1, buf = [\<lparr>seq = - 1, ptr = Null\<rparr>, \<lparr>seq = 0, ptr = Null\<rparr>, \<lparr>seq = - 1, ptr = Null\<rparr>],
      enqPos = - 1, deqPos = - 1\<rparr>
   = Inr (\<lparr>qmask = 1, buf = [\<lparr>seq = - 1, ptr = Null\<rparr>, \<lparr>seq = 0, ptr = Null\<rparr>, \<lparr>seq = 1, ptr = Null\<rparr>],
      enqPos = - 1, deqPos = 0\<rparr>, Null, True)
   \<and> TryDequeue [id, id]
     \<lparr>qmask = 1, buf = [\<lparr>seq = - 1, ptr = Null\<rparr>, \<lparr>seq = 0, ptr = Null\<rparr>, \<lparr>seq = - 1, ptr = Null\<rparr>],
      enqPos = - 1, deqPos = - 1\<rparr>
   = Some (Inr (\<lparr>qmask = 1, buf = [\<lparr>seq = - 1, ptr = Null\<rparr>, \<lparr>seq = 0, ptr = Null\<rparr>, \<lparr>seq = - 1, ptr = Null\<rparr>],
      enqPos = - 1, deqPos = - 1\<rparr>, Null, False))
   \<and> (- 1 :: uintptr) - (- 1 + 1) <s 0
   \<and> spsc_TryEnqueue 3
     \<lparr>spsc_mask = 1, spsc_cells = [\<lparr>seq = - 1, ptr = 1\<rparr>, \<lparr>seq = 0, ptr = 2\<rparr>],
      spsc_enqPos = 0, spsc_deqPos = - 2\<rparr>
   = Inr (\<lparr>spsc_mask = 1, spsc_cells = [\<lparr>seq = 1, ptr = 3\<rparr>, \<lparr>seq = 0, ptr = 2\<rparr>],
      spsc_enqPos = 1, spsc_deqPos = - 2\<rparr>, True)
   \<and> spmc_TryEnqueue 3
     \<lparr>qmask = 1, buf = [\<lparr>seq = - 1, ptr = Null\<rparr>, \<lparr>seq = - 1, ptr = 1\<rparr>, \<lparr>seq = 0, ptr = 2\<rparr>],
      enqPos = 0, deqPos = - 2\<rparr>
   = Inr (\<lparr>qmask = 1, buf = [\<lparr>seq = - 1, ptr = Null\<rparr>, \<lparr>seq = 1, ptr = 3\<rparr>, \<lparr>seq = 0, ptr = 2\<rparr>],
      enqPos = 1, deqPos = - 2\<rparr>, True)
   \<and> TryEnqueue 3 [id, id]
     \<lparr>qmask = 1, buf = [\<lparr>seq = - 1, ptr = Null\<rparr>, \<lparr>seq = - 1, ptr = 1\<rparr>, \<lparr>seq = 0, ptr = 2\<rparr>],
      enqPos = 0, deqPos = - 2\<rparr>
   = Some (Inr (\<lparr>qmask = 1, buf = [\<lparr>seq = - 1, ptr = Null\<rparr>, \<lparr>seq = - 1, ptr = 1\<rparr>, \<lparr>seq = 0, ptr = 2\<rparr>],
      enqPos = 0, deqPos = - 2\<rparr>, False))
   \<and> (- 1 :: uintptr) - 0 <s 0"
  by (intro conjI spsc_TryDequeue_wrapped mpsc_TryDequeue_wrapped TryDequeue_wrapped
      spsc_TryEnqueue_wrapped spmc_TryEnqueue_wrapped TryEnqueue_wrapped
      wrapped_differences_negative)

section \<open>New\<close>

subsection \<open>Sizes from 1 to \<open>2 ^ 63\<close>\<close>

lemma Next2_loop_unrolled:
  "Next2_loop 1 x =
     (let x1 = x OR drop_bit 1 x;
          x2 = x1 OR drop_bit 2 x1;
          x3 = x2 OR drop_bit 4 x2;
          x4 = x3 OR drop_bit 8 x3;
          x5 = x4 OR drop_bit 16 x4
      in x5 OR drop_bit 32 x5)"
  by (simp add: Next2_loop.simps UpSz_def Let_def)

lemma smeared_1: "smeared 1 x x"
  by (simp add: smeared_def)

lemma smeared_step:
  assumes "smeared K x y"
  shows "smeared (2 * K) x (y OR drop_bit K y)"
  unfolding smeared_def
proof
  fix n
  have "bit (y OR drop_bit K y) n \<longleftrightarrow> bit y n \<or> bit y (K + n)"
    by (simp add: bit_or_iff bit_drop_bit_eq)
  also have "\<dots> \<longleftrightarrow> (\<exists>j<K. bit x (n + j)) \<or> (\<exists>j<K. bit x (K + n + j))"
    using assms by (simp add: smeared_def)
  also have "\<dots> \<longleftrightarrow> (\<exists>j<2 * K. bit x (n + j))"
  proof
    assume "(\<exists>j<K. bit x (n + j)) \<or> (\<exists>j<K. bit x (K + n + j))"
    then show "\<exists>j<2 * K. bit x (n + j)"
    proof
      assume "\<exists>j<K. bit x (n + j)"
      then obtain j where "j < K" "bit x (n + j)" by blast
      then show ?thesis by (intro exI [of _ j]) simp
    next
      assume "\<exists>j<K. bit x (K + n + j)"
      then obtain j where "j < K" "bit x (K + n + j)" by blast
      then show ?thesis by (intro exI [of _ "K + j"]) (simp add: ac_simps)
    qed
  next
    assume "\<exists>j<2 * K. bit x (n + j)"
    then obtain j where j: "j < 2 * K" "bit x (n + j)" by blast
    show "(\<exists>j<K. bit x (n + j)) \<or> (\<exists>j<K. bit x (K + n + j))"
    proof (cases "j < K")
      case True
      with j show ?thesis by blast
    next
      case False
      with j have "j - K < K" "bit x (K + n + (j - K))" by (simp_all add: ac_simps)
      then show ?thesis by blast
    qed
  qed
  finally show "bit (y OR drop_bit K y) n \<longleftrightarrow> (\<exists>j<2 * K. bit x (n + j))" .
qed

lemma Next2_loop_smeared: "smeared 64 x (Next2_loop 1 x)"
proof -
  define x1 where "x1 = x OR drop_bit 1 x"
  define x2 where "x2 = x1 OR drop_bit 2 x1"
  define x3 where "x3 = x2 OR drop_bit 4 x2"
  define x4 where "x4 = x3 OR drop_bit 8 x3"
  define x5 where "x5 = x4 OR drop_bit 16 x4"
  have "smeared 2 x x1"
    unfolding x1_def using smeared_step [OF smeared_1 [of x]] by simp
  then have "smeared 4 x x2"
    unfolding x2_def using smeared_step [of 2 x x1] by simp
  then have "smeared 8 x x3"
    unfolding x3_def using smeared_step [of 4 x x2] by simp
  then have "smeared 16 x x4"
    unfolding x4_def using smeared_step [of 8 x x3] by simp
  then have "smeared 32 x x5"
    unfolding x5_def using smeared_step [of 16 x x4] by simp
  then have "smeared 64 x (x5 OR drop_bit 32 x5)"
    using smeared_step [of 32 x x5] by simp
  then show ?thesis
    unfolding Next2_loop_unrolled Let_def x1_def x2_def x3_def x4_def x5_def .
qed

lemma bit_Next2_loop:
  "bit (Next2_loop 1 x) n \<longleftrightarrow> (\<exists>m\<ge>n. bit x m)"
proof
  assume "bit (Next2_loop 1 x) n"
  with Next2_loop_smeared [of x] obtain j where "bit x (n + j)"
    by (auto simp: smeared_def)
  then show "\<exists>m\<ge>n. bit x m"
    by (intro exI [of _ "n + j"]) simp
next
  assume "\<exists>m\<ge>n. bit x m"
  then obtain m where m: "n \<le> m" "bit x m" by blast
  then have "m < 64"
    using bit_imp_le_length [of x m] by simp
  with m have "m - n < 64" "bit x (n + (m - n))" by simp_all
  with Next2_loop_smeared [of x] show "bit (Next2_loop 1 x) n"
    unfolding smeared_def by blast
qed

lemma bit_nat_lower: "bit (a::nat) m \<Longrightarrow> 2 ^ m \<le> a"
  by (rule ccontr) (simp add: bit_iff_odd not_le)

lemma bit_nat_top:
  assumes "2 ^ m \<le> (a::nat)" and "a < 2 ^ Suc m"
  shows "bit a m"
proof -
  from assms(1) have "1 \<le> a div 2 ^ m"
    by (simp add: Suc_le_eq div_greater_zero_iff)
  moreover from assms(2) have "a div 2 ^ m < 2"
    by (simp add: less_mult_imp_div_less mult.commute)
  ultimately have "a div 2 ^ m = 1"
    by simp
  then show ?thesis
    by (simp add: bit_iff_odd)
qed

lemma Next2_loop_mask:
  assumes lt: "unat x < 2 ^ k" and top: "k = 0 \<or> 2 ^ (k - 1) \<le> unat x"
  shows "Next2_loop 1 x = mask k"
proof (rule bit_eqI)
  fix n
  assume "possible_bit TYPE(uintptr) n"
  then have n: "n < 64" by simp
  have "(\<exists>m\<ge>n. bit x m) \<longleftrightarrow> n < k"
  proof
    assume "\<exists>m\<ge>n. bit x m"
    then obtain m where m: "n \<le> m" "bit x m" by blast
    then have "bit (unat x) m"
      using bit_imp_le_length [of x m] by (simp add: bit_unsigned_iff)
    then have "2 ^ m \<le> unat x"
      by (rule bit_nat_lower)
    then have "(2::nat) ^ m < 2 ^ k"
      using lt by (rule le_less_trans)
    then have "m < k" by simp
    with m show "n < k" by simp
  next
    assume nk: "n < k"
    with top have low: "2 ^ (k - 1) \<le> unat x" by auto
    from nk lt have "unat x < 2 ^ Suc (k - 1)" by simp
    with low have b: "bit (unat x) (k - 1)"
      by (rule bit_nat_top)
    then have "bit x (k - 1)"
      by (simp add: bit_unsigned_iff)
    moreover from nk have "n \<le> k - 1" by simp
    ultimately show "\<exists>m\<ge>n. bit x m" by blast
  qed
  with n show "bit (Next2_loop 1 x) n \<longleftrightarrow> bit (mask k :: uintptr) n"
    by (simp add: bit_Next2_loop bit_mask_iff)
qed

lemma exponent_of:
  fixes a :: nat
  obtains k where "a < 2 ^ k" and "k = 0 \<or> 2 ^ (k - 1) \<le> a"
proof -
  define k where "k = (LEAST k. a < 2 ^ k)"
  have "a < 2 ^ a"
    by (rule less_exp)
  then have lt: "a < 2 ^ k"
    unfolding k_def by (rule LeastI)
  have top: "2 ^ (k - 1) \<le> a" if "k \<noteq> 0"
  proof (rule ccontr)
    assume "\<not> 2 ^ (k - 1) \<le> a"
    then have "a < 2 ^ (k - 1)"
      by (simp only: not_le)
    then have "(LEAST k. a < 2 ^ k) \<le> k - 1"
      by (rule Least_le)
    then have "k \<le> k - 1"
      by (simp only: k_def [symmetric])
    with that show False
      by arith
  qed
  show thesis
  proof (rule that [of k])
    show "a < 2 ^ k"
      by (rule lt)
    show "k = 0 \<or> 2 ^ (k - 1) \<le> a"
      using top by (cases "k = 0") (rule disjI1, assumption, rule disjI2, simp)
  qed
qed

text \<open>
  For the sizes from 1 to \<open>2 ^ 63\<close>, \<open>Next2\<close> is the least power of two that is at
  least the size.
\<close>

lemma Next2_least_power:
  assumes "0 < sz" and "sz \<le> 2 ^ 63"
  shows "\<exists>k\<le>63. Next2 sz = 2 ^ k \<and> unat sz \<le> 2 ^ k \<and> (0 < k \<longrightarrow> 2 ^ (k - 1) < unat sz)"
proof -
  from assms(1) have nz: "sz \<noteq> 0" by simp
  then have pos: "0 < unat sz"
    by (simp add: unat_gt_0)
  have x: "unat (sz - 1) = unat sz - 1"
    using nz by (rule unat_minus_one)
  from assms(2) have "unat sz \<le> 2 ^ 63"
    by (simp add: word_le_nat_alt)
  with pos x have small: "unat (sz - 1) < 2 ^ 63" by arith
  obtain k where lt: "unat (sz - 1) < 2 ^ k" and top: "k = 0 \<or> 2 ^ (k - 1) \<le> unat (sz - 1)"
    by (rule exponent_of)
  have k63: "k \<le> 63"
  proof (rule ccontr)
    assume "\<not> k \<le> 63"
    then have k: "63 \<le> k - 1" "k \<noteq> 0" by arith+
    then have "(2::nat) ^ 63 \<le> 2 ^ (k - 1)"
      by (intro power_increasing) simp_all
    moreover from top k have "2 ^ (k - 1) \<le> unat (sz - 1)" by blast
    ultimately show False using small by arith
  qed
  have "Next2_loop 1 (sz - 1) = mask k"
    using lt top by (rule Next2_loop_mask)
  then have "Next2 sz = mask k + 1"
    by (simp only: Next2_def)
  then have n2: "Next2 sz = 2 ^ k"
    by (simp add: mask_eq_exp_minus_1)
  from lt x pos have le: "unat sz \<le> 2 ^ k" by arith
  have "2 ^ (k - 1) < unat sz" if "0 < k"
  proof -
    from top that have "2 ^ (k - 1) \<le> unat (sz - 1)" by simp
    with x pos show ?thesis by arith
  qed
  with k63 n2 le show ?thesis by blast
qed

lemma New_loop_spec:
  assumes "length b = unat n"
  shows "length (New_loop i n b) = length b
    \<and> (\<forall>j<length b. New_loop i n b ! j
          = (if unat i \<le> j then (b ! j)\<lparr>seq := of_nat j - 1\<rparr> else b ! j))"
  using assms
proof (induction i n b rule: New_loop.induct)
  case (1 i n b)
  show ?case
  proof (cases "i < n")
    case False
    then have "unat n \<le> unat i"
      by (simp add: word_less_nat_alt)
    with False "1.prems" show ?thesis
      by (subst (1 2) New_loop.simps) simp
  next
    case True
    let ?b' = "b[unat i := (b ! unat i)\<lparr>seq := i - 1\<rparr>]"
    from True have lt: "unat i < unat n"
      by (simp add: word_less_nat_alt)
    have "unat n < 2 ^ 64"
      using unsigned_less [of n] by simp
    with lt have suc: "unat (i + 1) = unat i + 1"
      by (simp add: unat_word_ariths)
    have len: "length ?b' = unat n"
      using "1.prems" by simp
    note IH = "1.IH" [OF True len]
    have unf: "New_loop i n b = New_loop (i + 1) n ?b'"
      using True by (subst New_loop.simps) simp
    have i_eq: "(of_nat (unat i) :: uintptr) = i"
      by simp
    show ?thesis
    proof (intro conjI allI impI)
      show "length (New_loop i n b) = length b"
        using IH by (simp add: unf)
    next
      fix j
      assume j: "j < length b"
      with IH have r: "New_loop i n b ! j
          = (if unat i + 1 \<le> j then (?b' ! j)\<lparr>seq := of_nat j - 1\<rparr> else ?b' ! j)"
        by (simp add: unf suc)
      show "New_loop i n b ! j = (if unat i \<le> j then (b ! j)\<lparr>seq := of_nat j - 1\<rparr> else b ! j)"
      proof (cases "j = unat i")
        case True
        with j r i_eq show ?thesis by simp
      next
        case False
        with j r show ?thesis by auto
      qed
    qed
  qed
qed

lemma buf_New:
  "length (buf (New sz)) = unat (Next2 sz + 1)
   \<and> (\<forall>j<unat (Next2 sz + 1). buf (New sz) ! j = \<lparr>seq = of_nat j - 1, ptr = Null\<rparr>)"
proof -
  let ?n = "Next2 sz + 1"
  let ?b = "replicate (unat ?n) \<lparr>seq = 0, ptr = Null\<rparr>"
  have "length ?b = unat ?n" by simp
  from New_loop_spec [OF this, of 0]
  show ?thesis
    by (simp add: New_def Let_def)
qed

lemma unat_power_2:
  assumes "k < 64"
  shows "unat (2 ^ k :: uintptr) = 2 ^ k"
proof -
  have "(2 ^ k :: uintptr) = of_nat (2 ^ k)"
    by simp
  then have "unat (2 ^ k :: uintptr) = 2 ^ k mod 2 ^ 64"
    by (simp only: unat_of_nat) simp
  moreover have "(2::nat) ^ k < 2 ^ 64"
    using assms by (intro power_strict_increasing) simp_all
  ultimately show ?thesis
    by simp
qed

text \<open>
  For these sizes \<open>New\<close> does what claim C3 says: the queue has \<open>2 ^ k\<close> cells after the
  pad cell, where \<open>2 ^ k\<close> is the least power of two that is at least the size, its mask
  is \<open>2 ^ k - 1\<close>, and cell \<open>i\<close> carries the sequence number \<open>i\<close> and no pointer.
\<close>

lemma New_spec:
  assumes "0 < sz" and "sz \<le> 2 ^ 63"
  shows "\<exists>k\<le>63. unat sz \<le> 2 ^ k \<and> (0 < k \<longrightarrow> 2 ^ (k - 1) < unat sz)
     \<and> length (buf (New sz)) = 2 ^ k + 1
     \<and> qmask (New sz) = 2 ^ k - 1 \<and> enqPos (New sz) = 0 \<and> deqPos (New sz) = 0
     \<and> (\<forall>i. cell_at (New sz) i = (if unat i < 2 ^ k then Some \<lparr>seq = i, ptr = Null\<rparr> else None))"
proof -
  from Next2_least_power [OF assms] obtain k where k: "k \<le> 63" and n2: "Next2 sz = 2 ^ k"
    and le: "unat sz \<le> 2 ^ k" and least: "0 < k \<longrightarrow> 2 ^ (k - 1) < unat sz"
    by blast
  have p: "unat (2 ^ k :: uintptr) = 2 ^ k"
    using k by (intro unat_power_2) simp
  have "(2::nat) ^ k \<le> 2 ^ 63"
    using k by (intro power_increasing) simp_all
  then have "unat (2 ^ k :: uintptr) + unat (1 :: uintptr) < 2 ^ 64"
    by (simp add: p)
  then have n: "unat (Next2 sz + 1) = 2 ^ k + 1"
    unfolding n2 by (simp add: unat_word_ariths p)
  note b = buf_New [of sz, unfolded n]
  have cells: "cell_at (New sz) i = (if unat i < 2 ^ k then Some \<lparr>seq = i, ptr = Null\<rparr> else None)"
    for i
  proof (cases "unat i < 2 ^ k")
    case True
    then have "unat i + 1 < 2 ^ k + 1" by simp
    moreover from this b have "buf (New sz) ! (unat i + 1) = \<lparr>seq = of_nat (unat i + 1) - 1, ptr = Null\<rparr>"
      by blast
    ultimately show ?thesis
      using True b by (simp add: cell_at_def)
  next
    case False
    with b show ?thesis by (simp add: cell_at_def)
  qed
  have "qmask (New sz) = 2 ^ k - 1" "enqPos (New sz) = 0" "deqPos (New sz) = 0"
    by (simp_all add: New_def Let_def n2)
  with k le least b cells show ?thesis
    by blast
qed

subsection \<open>Size 0 and the sizes above \<open>2 ^ 63\<close>\<close>

text \<open>Above \<open>2 ^ 63\<close> the result wraps to 0, as it does at 0.\<close>

lemma Next2_wraps:
  assumes "2 ^ 63 < sz"
  shows "Next2 sz = 0"
proof -
  from assms have big: "2 ^ 63 < unat sz"
    by (simp add: word_less_nat_alt)
  then have "sz \<noteq> 0"
    by auto
  then have x: "unat (sz - 1) = unat sz - 1"
    by (rule unat_minus_one)
  have "unat (sz - 1) < 2 ^ 64"
    using unsigned_less [of "sz - 1"] by simp
  moreover have "(64::nat) = 0 \<or> 2 ^ (64 - 1) \<le> unat (sz - 1)"
    using big x by simp
  ultimately have "Next2_loop 1 (sz - 1) = mask 64"
    by (rule Next2_loop_mask)
  then show ?thesis
    by (simp add: Next2_def mask_eq_exp_minus_1)
qed

lemma Next2_loop_all_ones: "Next2_loop i (- 1) = - 1"
  by (induction i "- 1 :: uintptr" rule: Next2_loop.induct)
    (subst Next2_loop.simps, simp)

lemma Next2_0: "Next2 0 = 0"
  by (simp add: Next2_def Next2_loop_all_ones)

lemma New_loop_0_1: "New_loop 0 1 [c] = [c\<lparr>seq := - 1\<rparr>]"
  by (simp add: New_loop.simps)

lemma New_0: "New 0 = \<lparr>qmask = - 1, buf = [\<lparr>seq = - 1, ptr = Null\<rparr>], enqPos = 0, deqPos = 0\<rparr>"
  by (simp add: New_def Next2_0 New_loop_0_1)

lemma cell_at_New_0: "cell_at (New 0) k = None"
  by (simp add: New_0 cell_at_def)

lemma TryEnqueue_New_0: "TryEnqueue p [id, id] (New 0) = Some (Inl OutOfAllocation)"
  by (simp add: New_0 cell_at_def)

lemma spsc_New_0:
  "spsc_New 0 = \<lparr>spsc_mask = - 1, spsc_cells = [], spsc_enqPos = 0, spsc_deqPos = 0\<rparr>"
  by (simp add: spsc_New_def Next2_0 New_loop_0_1)

lemma spsc_TryEnqueue_New_0: "spsc_TryEnqueue p (spsc_New 0) = Inl IndexOutOfRange"
  by (simp add: spsc_New_0 spsc_TryEnqueue_def)

text \<open>
  Claim C3 says that \<open>New(size)\<close> makes a queue whose capacity is the least power of
  two that is at least \<open>size\<close>, for every size, 0 too; for 0 that is a queue of one
  cell, with mask 0. In the code \<open>Next2 0\<close> is 0: \<open>New 0\<close> allocates the pad cell alone,
  its mask is \<open>2 ^ 64 - 1\<close>, no cell of the queue lies in the allocation, and the first
  \<open>TryEnqueue\<close> reads past the array. \<open>spscdvq.New(0)\<close> yields the empty slice, and the
  first \<open>TryEnqueue\<close> on it panics.
\<close>

theorem New_of_zero:
  "Next2 0 = 0
   \<and> New 0 = \<lparr>qmask = - 1, buf = [\<lparr>seq = - 1, ptr = Null\<rparr>], enqPos = 0, deqPos = 0\<rparr>
   \<and> cell_at (New 0) k = None
   \<and> TryEnqueue p [id, id] (New 0) = Some (Inl OutOfAllocation)
   \<and> spsc_New 0 = \<lparr>spsc_mask = - 1, spsc_cells = [], spsc_enqPos = 0, spsc_deqPos = 0\<rparr>
   \<and> spsc_TryEnqueue p (spsc_New 0) = Inl IndexOutOfRange"
  by (intro conjI Next2_0 New_0 cell_at_New_0 TryEnqueue_New_0 spsc_New_0 spsc_TryEnqueue_New_0)

section \<open>The turn broker waiting for a turn\<close>

lemma futex_Wait_step [simp]: "futex_Wait expectState waitMask e s = e s"
  by (simp add: futex_Wait_def)

lemma Pause_id [simp]: "Pause s = s"
  by (simp add: Pause_def)

lemma maxWait_val: "maxWait = 33554431"
  by (simp add: maxWait_def turnShift_def)








lemma uint32_range: "0 \<le> uint (x :: uint32) \<and> uint x < 4294967296"
  using uint_lt2p [of x] by simp

lemma signed_take_bit_63_small:
  "- 4294967296 < k \<Longrightarrow> k < 4294967296 \<Longrightarrow> signed_take_bit 63 k = (k::int)"
  by (rule signed_take_bit_int_eq_self) simp_all

lemma take_bit_small:
  "0 \<le> k \<Longrightarrow> k < 4294967296 \<Longrightarrow> take_bit 64 k = (k::int)"
  "0 \<le> k \<Longrightarrow> k < 4294967296 \<Longrightarrow> take_bit 32 k = (k::int)"
  by (rule take_bit_int_eq_self; simp)+

lemma sint_ucast_32_64: "sint (ucast (x :: uint32) :: 64 word) = uint x"
proof -
  have "sint (ucast x :: 64 word) = signed_take_bit 63 (uint (ucast x :: 64 word))"
    by (simp add: sint_uint)
  also have "uint (ucast x :: 64 word) = uint x"
    by (simp add: uint_up_ucast is_up)
  also have "signed_take_bit 63 (uint x) = uint x"
    using uint32_range [of x] by (intro signed_take_bit_63_small) linarith+
  finally show ?thesis .
qed

lemma moving_average_range:
  assumes "0 \<le> g" "g < 4294967296" "0 \<le> x" "x < 4294967296"
  shows "0 \<le> moving_average g x \<and> moving_average g x < 4294967296"
  using assms unfolding moving_average_def by auto

lemma ema_word:
  fixes g su :: uint32
  shows "uint (ucast ((ucast g :: 64 word) + signed_drop_bit 3 (ucast su - ucast g)) :: uint32)
         = moving_average (uint g) (uint su)"
proof -
  let ?G = "ucast g :: 64 word" and ?S = "ucast su :: 64 word"
  let ?R = "?G + signed_drop_bit 3 (?S - ?G)"
  note g = uint32_range [of g] and s = uint32_range [of su]
  have "sint (?S - ?G) = signed_take_bit 63 (uint su - uint g)"
    by (simp add: sint_word_diff sint_ucast_32_64)
  also have "\<dots> = uint su - uint g"
    using g s by (intro signed_take_bit_63_small) linarith+
  finally have d: "sint (?S - ?G) = uint su - uint g" .
  have sh: "sint (signed_drop_bit 3 (?S - ?G)) = (uint su - uint g) div 8"
    by (simp add: sint_signed_drop_bit_eq d drop_bit_eq_div)
  have r: "0 \<le> moving_average (uint g) (uint su)"
    "moving_average (uint g) (uint su) < 4294967296"
    using moving_average_range [of "uint g" "uint su"] g s by simp_all
  have "sint ?R = signed_take_bit 63 (moving_average (uint g) (uint su))"
    by (simp add: sint_word_add sint_ucast_32_64 sh moving_average_def)
  also have "\<dots> = moving_average (uint g) (uint su)"
    using r by (intro signed_take_bit_63_small) linarith+
  finally have sr: "sint ?R = moving_average (uint g) (uint su)" .
  have "uint ?R = take_bit 64 (sint ?R)"
    by (simp add: uint_sint)
  also have "\<dots> = moving_average (uint g) (uint su)"
    unfolding sr using r by (intro take_bit_small) linarith+
  finally have ur: "uint ?R = moving_average (uint g) (uint su)" .
  have "uint (ucast ?R :: uint32) = take_bit 32 (uint ?R)"
    by (simp add: unsigned_ucast_eq)
  also have "\<dots> = moving_average (uint g) (uint su)"
    unfolding ur using r by (intro take_bit_small) linarith+
  finally show ?thesis .
qed

lemma spin_sample_range: "4 \<le> spin_sample n \<and> spin_sample n \<le> 2000"
  by (simp add: spin_sample_def)

lemma sample_word:
  fixes tries :: uint32
  shows "unat (if tries \<ge> maxSpins then minSpins
          else let spinUpdate = minSpins;
                   dubTries = push_bit 1 tries;
                   spinUpdate = (if dubTries > spinUpdate then dubTries else spinUpdate);
                   spinUpdate = (if maxSpins < spinUpdate then maxSpins else spinUpdate)
               in spinUpdate) = spin_sample (unat tries)"
proof (cases "tries \<ge> maxSpins")
  case True
  then have "2000 \<le> unat tries"
    by (simp add: maxSpins_def word_le_nat_alt)
  with True show ?thesis
    by (simp add: spin_sample_def minSpins_def)
next
  case False
  then have lt: "unat tries < 2000"
    by (simp add: maxSpins_def word_le_nat_alt)
  then have dub: "unat (tries * 2) = 2 * unat tries"
    by (simp add: unat_word_ariths)
  have c: "unat minSpins = 4" "unat maxSpins = 2000"
    by (simp_all add: minSpins_def maxSpins_def)
  show ?thesis
    using False lt
    by (simp add: Let_def spin_sample_def word_less_nat_alt push_bit_eq_mult dub c)
qed




lemma turn_numbers: "getTurnNumber 0 = 0" "getTurnNumber 64 = 1" "getTurnNumber 320 = 5"
  by (simp_all add: getTurnNumber_def turnShift_def turnWaitMask_def)


text \<open>
  The update, from the count of tries that the loop returns: the sample is 4 when
  \<open>tries \<ge> 2000\<close> and otherwise twice the tries clamped to the range from 4 to 2000; a
  cutoff of 0 is overwritten with the sample, any other cutoff \<open>g\<close> is replaced, by one
  compare-and-swap that expects \<open>g\<close>, with the word whose value is
  \<open>g + (sample - g) div 8\<close>.
\<close>

lemma waitFor_update_of_tries:
  assumes "waitFor_loop turn maxSpins 0 (State (e1 (e0 s))) es (e1 (e0 s))
             = Some (Inr (tries, es', s'))"
    and "upd \<or> spinCutoff (e0 s) = 0"
  shows "4 \<le> spin_sample (unat tries) \<and> spin_sample (unat tries) \<le> 2000
     \<and> (2000 \<le> unat tries \<longrightarrow> spin_sample (unat tries) = 4)
     \<and> (spinCutoff (e0 s) = 0 \<longrightarrow>
          waitFor turn upd (e0 # e1 # es) s
            = Some (Inr (s'\<lparr>spinCutoff := of_nat (spin_sample (unat tries))\<rparr>)))
     \<and> (spinCutoff (e0 s) \<noteq> 0 \<and> es' = e # es'' \<longrightarrow>
          (\<exists>c. uint c = moving_average (uint (spinCutoff (e0 s))) (int (spin_sample (unat tries)))
             \<and> waitFor turn upd (e0 # e1 # es) s
                = Some (Inr ((e s')\<lparr>spinCutoff :=
                     (if spinCutoff (e s') = spinCutoff (e0 s) then c else spinCutoff (e s'))\<rparr>))))"
proof -
  let ?g = "spinCutoff (e0 s)"
  define W :: uint32 where "W =
    (if tries \<ge> maxSpins then minSpins
     else let spinUpdate = minSpins;
              dubTries = push_bit 1 tries;
              spinUpdate = (if dubTries > spinUpdate then dubTries else spinUpdate);
              spinUpdate = (if maxSpins < spinUpdate then maxSpins else spinUpdate)
          in spinUpdate)"
  have uW: "unat W = spin_sample (unat tries)"
    unfolding W_def by (rule sample_word)
  have W: "W = of_nat (spin_sample (unat tries))"
    unfolding uW [symmetric] by simp
  have uiW: "uint W = int (spin_sample (unat tries))"
    using uW by (simp add: uint_nat)
  define C :: uint32 where
    "C = ucast ((ucast ?g :: 64 word) + signed_drop_bit 3 (ucast W - ucast ?g))"
  have uC: "uint C = moving_average (uint ?g) (int (spin_sample (unat tries)))"
    unfolding C_def ema_word uiW ..
  have zero: "waitFor turn upd (e0 # e1 # es) s = Some (Inr (s'\<lparr>spinCutoff := W\<rparr>))"
    if "?g = 0"
    using that assms by (simp add: W_def Let_def)
  have nonzero: "waitFor turn upd (e0 # e1 # es) s
                = Some (Inr ((e s')\<lparr>spinCutoff :=
                     (if spinCutoff (e s') = ?g then C else spinCutoff (e s'))\<rparr>))"
    if "?g \<noteq> 0" "es' = e # es''"
    using that assms by (simp add: W_def C_def Let_def CompareAndSwapUint32_def)
  show ?thesis
  proof (intro conjI impI)
    show "4 \<le> spin_sample (unat tries)" and "spin_sample (unat tries) \<le> 2000"
      using spin_sample_range [of "unat tries"] by blast+
    show "spin_sample (unat tries) = 4" if "2000 \<le> unat tries"
      using that by (simp add: spin_sample_def)
    show "waitFor turn upd (e0 # e1 # es) s
            = Some (Inr (s'\<lparr>spinCutoff := of_nat (spin_sample (unat tries))\<rparr>))"
      if "?g = 0"
      using zero [OF that] unfolding W .
    show "\<exists>c. uint c = moving_average (uint ?g) (int (spin_sample (unat tries)))
             \<and> waitFor turn upd (e0 # e1 # es) s
                = Some (Inr ((e s')\<lparr>spinCutoff :=
                     (if spinCutoff (e s') = ?g then c else spinCutoff (e s'))\<rparr>))"
      if "?g \<noteq> 0 \<and> es' = e # es''"
      using nonzero uC that by blast
  qed
qed

text \<open>
  The count of tries. Every round that does not end the loop and does not panic goes on
  with the count plus one, and so \<open>n\<close> rounds that spin or park, followed by a state of
  the turn, end the loop with \<open>n\<close> more than it started with.
\<close>

lemma waitFor_loop_round:
  assumes "spins_or_parks turn spinCount tries state"
  shows "waitFor_loop turn spinCount tries state (e # es) s
         = waitFor_loop turn spinCount (tries + 1) (State (e s)) es (e s)"
  using assms by (auto simp: spins_or_parks_def Let_def)

lemma waitFor_loop_cas_lost:
  assumes "getTurnNumber state \<noteq> turn" and "turn - getTurnNumber state < maxWait"
    and "\<not> tries < spinCount" and "\<not> turn - getTurnNumber state \<le> getTurnWait state"
    and "state \<noteq> encodeTurn (getTurnNumber state) (turn - getTurnNumber state)"
    and "State (e s) \<noteq> state"
  shows "waitFor_loop turn spinCount tries state (e # es) s
         = waitFor_loop turn spinCount (tries + 1) (State (e s)) es (e s)"
proof -
  from assms(2) have "\<not> maxWait \<le> turn - getTurnNumber state"
    by simp
  with assms show ?thesis
    by (simp add: Let_def CompareAndSwapUintptr_def)
qed

lemma waitFor_loop_cas_won:
  assumes "getTurnNumber state \<noteq> turn" and "turn - getTurnNumber state < maxWait"
    and "\<not> tries < spinCount" and "\<not> turn - getTurnNumber state \<le> getTurnWait state"
    and "state \<noteq> encodeTurn (getTurnNumber state) (turn - getTurnNumber state)"
    and "State (e s) = state"
  shows "waitFor_loop turn spinCount tries state (e # e' # es) s
         = waitFor_loop turn spinCount (tries + 1)
             (State (e' ((e s)\<lparr>State := encodeTurn (getTurnNumber state) (turn - getTurnNumber state)\<rparr>)))
             es (e' ((e s)\<lparr>State := encodeTurn (getTurnNumber state) (turn - getTurnNumber state)\<rparr>))"
proof -
  from assms(2) have "\<not> maxWait \<le> turn - getTurnNumber state"
    by simp
  with assms show ?thesis
    by (simp add: Let_def CompareAndSwapUintptr_def)
qed

lemma waitFor_loop_counts:
  assumes "n \<le> length es"
    and "\<forall>i<n. spins_or_parks turn spinCount (tries + of_nat i) (State (after (take i es) s))"
    and "getTurnNumber (State (after (take n es) s)) = turn"
  shows "waitFor_loop turn spinCount tries (State s) es s
         = Some (Inr (tries + of_nat n, drop n es, after (take n es) s))"
  using assms
proof (induction n arbitrary: tries es s)
  case 0
  then show ?case
    by (cases es) (simp_all add: Let_def)
next
  case (Suc n)
  from Suc.prems(1) obtain e es1 where es: "es = e # es1"
    by (cases es) simp_all
  from Suc.prems(2) have first: "spins_or_parks turn spinCount tries (State s)"
    by (auto dest: spec [of _ 0])
  have rest: "\<forall>i<n. spins_or_parks turn spinCount (tries + 1 + of_nat i)
                       (State (after (take i es1) (e s)))"
  proof (intro allI impI)
    fix i assume "i < n"
    then have "Suc i < Suc n" by simp
    with Suc.prems(2) have "spins_or_parks turn spinCount (tries + of_nat (Suc i))
                       (State (after (take (Suc i) es) s))"
      by blast
    then show "spins_or_parks turn spinCount (tries + 1 + of_nat i)
                       (State (after (take i es1) (e s)))"
      using es by (simp add: add.assoc)
  qed
  have "waitFor_loop turn spinCount (tries + 1) (State (e s)) es1 (e s)
         = Some (Inr (tries + 1 + of_nat n, drop n es1, after (take n es1) (e s)))"
    using Suc.prems(1,3) es rest by (intro Suc.IH) simp_all
  then show ?case
    using es waitFor_loop_round [OF first, of e es1 s] by (simp add: add.assoc del: waitFor_loop.simps)
qed


lemma tries_below_maxSpins: "i < 2000 \<Longrightarrow> (of_nat i :: uint32) < maxSpins"
  by (simp add: maxSpins_def word_less_nat_alt unat_of_nat)

lemma unat_tries: "n < 4294967296 \<Longrightarrow> unat (of_nat n :: uint32) = n"
  by (simp add: unat_of_nat)

lemma turn_words: "getTurnWait 0 = 0" "encodeTurn 0 1 = 1"
  by (simp_all add: getTurnWait_def encodeTurn_def turnWaitMask_def turnShift_def)

text \<open>
  Claim C7. Updating is enabled when \<open>updateSpinCutoff\<close> is set or the cutoff read at the
  start, \<open>g\<close>, is 0.
  (1) Let the loop of \<open>waitFor\<close> end with the count \<open>tries\<close>. The sample is
  \<open>spin_sample tries\<close>: 4 when \<open>tries \<ge> 2000\<close>, and otherwise twice the tries clamped
  to the range from 4 to 2000. When \<open>g\<close> is 0 the sample is stored. Otherwise one
  compare-and-swap, which expects \<open>g\<close>, stores the word \<open>c\<close> whose value is
  \<open>g + (sample - g) div 8\<close>, the shift by 3 of the signed difference; when the cutoff is
  no longer \<open>g\<close> it stays as it is.
  (2) The count is the number of rounds that the call waited. When the states that the
  call examines in its first \<open>n\<close> rounds are not of the turn, each of these rounds spins
  or parks, and the state after \<open>n\<close> entries of the schedule is of the turn, the loop ends
  with the count \<open>n\<close>, and the cutoff is updated from \<open>spin_sample n\<close> as in (1).
  (3) The round that finds the turn ends the loop with the count as it is.
  (4), (5), (6) Every other round that does not panic goes on with the count plus one:
  the round that spins or parks, the round that loses its compare-and-swap of the state,
  and the round that wins it and parks.
\<close>

theorem waitFor_updates_spin_cutoff:
  "((upd \<or> spinCutoff (e0 s) = 0)
      \<and> waitFor_loop turn maxSpins 0 (State (e1 (e0 s))) es (e1 (e0 s))
           = Some (Inr (tries, es', s')) \<longrightarrow>
      4 \<le> spin_sample (unat tries) \<and> spin_sample (unat tries) \<le> 2000
      \<and> (2000 \<le> unat tries \<longrightarrow> spin_sample (unat tries) = 4)
      \<and> (spinCutoff (e0 s) = 0 \<longrightarrow>
           waitFor turn upd (e0 # e1 # es) s
             = Some (Inr (s'\<lparr>spinCutoff := of_nat (spin_sample (unat tries))\<rparr>)))
      \<and> (spinCutoff (e0 s) \<noteq> 0 \<and> es' = e # es'' \<longrightarrow>
           (\<exists>c. uint c = moving_average (uint (spinCutoff (e0 s))) (int (spin_sample (unat tries)))
              \<and> waitFor turn upd (e0 # e1 # es) s
                 = Some (Inr ((e s')\<lparr>spinCutoff :=
                      (if spinCutoff (e s') = spinCutoff (e0 s) then c else spinCutoff (e s'))\<rparr>)))))
   \<and> ((upd \<or> spinCutoff (e0 s) = 0)
      \<and> n \<le> length es \<and> n < 4294967296
      \<and> (\<forall>i<n. spins_or_parks turn maxSpins (of_nat i) (State (after (take i es) (e1 (e0 s)))))
      \<and> getTurnNumber (State (after (take n es) (e1 (e0 s)))) = turn \<longrightarrow>
      waitFor_loop turn maxSpins 0 (State (e1 (e0 s))) es (e1 (e0 s))
        = Some (Inr (of_nat n, drop n es, after (take n es) (e1 (e0 s))))
      \<and> (spinCutoff (e0 s) = 0 \<longrightarrow>
           waitFor turn upd (e0 # e1 # es) s
             = Some (Inr ((after (take n es) (e1 (e0 s)))\<lparr>spinCutoff := of_nat (spin_sample n)\<rparr>)))
      \<and> (spinCutoff (e0 s) \<noteq> 0 \<and> drop n es = e # es'' \<longrightarrow>
           (\<exists>c. uint c = moving_average (uint (spinCutoff (e0 s))) (int (spin_sample n))
              \<and> waitFor turn upd (e0 # e1 # es) s
                 = Some (Inr ((e (after (take n es) (e1 (e0 s))))\<lparr>spinCutoff :=
                      (if spinCutoff (e (after (take n es) (e1 (e0 s)))) = spinCutoff (e0 s)
                       then c else spinCutoff (e (after (take n es) (e1 (e0 s)))))\<rparr>)))))
   \<and> (getTurnNumber state = turn \<longrightarrow>
        waitFor_loop turn spinCount t state rs r = Some (Inr (t, rs, r)))
   \<and> (spins_or_parks turn spinCount t state \<longrightarrow>
        waitFor_loop turn spinCount t state (e # rs) r
          = waitFor_loop turn spinCount (t + 1) (State (e r)) rs (e r))
   \<and> (getTurnNumber state \<noteq> turn \<and> turn - getTurnNumber state < maxWait
        \<and> \<not> t < spinCount \<and> \<not> turn - getTurnNumber state \<le> getTurnWait state
        \<and> state \<noteq> encodeTurn (getTurnNumber state) (turn - getTurnNumber state)
        \<and> State (e r) \<noteq> state \<longrightarrow>
        waitFor_loop turn spinCount t state (e # rs) r
          = waitFor_loop turn spinCount (t + 1) (State (e r)) rs (e r))
   \<and> (getTurnNumber state \<noteq> turn \<and> turn - getTurnNumber state < maxWait
        \<and> \<not> t < spinCount \<and> \<not> turn - getTurnNumber state \<le> getTurnWait state
        \<and> state \<noteq> encodeTurn (getTurnNumber state) (turn - getTurnNumber state)
        \<and> State (e r) = state \<longrightarrow>
        waitFor_loop turn spinCount t state (e # e' # rs) r
          = waitFor_loop turn spinCount (t + 1)
              (State (e' ((e r)\<lparr>State := encodeTurn (getTurnNumber state) (turn - getTurnNumber state)\<rparr>)))
              rs (e' ((e r)\<lparr>State := encodeTurn (getTurnNumber state) (turn - getTurnNumber state)\<rparr>)))"
proof -
  let ?s1 = "e1 (e0 s)"
  let ?g = "spinCutoff (e0 s)"
  have A: "(upd \<or> ?g = 0)
      \<and> waitFor_loop turn maxSpins 0 (State ?s1) es ?s1 = Some (Inr (tries, es', s')) \<longrightarrow>
      4 \<le> spin_sample (unat tries) \<and> spin_sample (unat tries) \<le> 2000
      \<and> (2000 \<le> unat tries \<longrightarrow> spin_sample (unat tries) = 4)
      \<and> (?g = 0 \<longrightarrow>
           waitFor turn upd (e0 # e1 # es) s
             = Some (Inr (s'\<lparr>spinCutoff := of_nat (spin_sample (unat tries))\<rparr>)))
      \<and> (?g \<noteq> 0 \<and> es' = e # es'' \<longrightarrow>
           (\<exists>c. uint c = moving_average (uint ?g) (int (spin_sample (unat tries)))
              \<and> waitFor turn upd (e0 # e1 # es) s
                 = Some (Inr ((e s')\<lparr>spinCutoff :=
                      (if spinCutoff (e s') = ?g then c else spinCutoff (e s'))\<rparr>))))"
    for tries es' s' e es''
  proof (rule impI)
    assume a: "(upd \<or> ?g = 0)
      \<and> waitFor_loop turn maxSpins 0 (State ?s1) es ?s1 = Some (Inr (tries, es', s'))"
    then have 1: "waitFor_loop turn maxSpins 0 (State ?s1) es ?s1 = Some (Inr (tries, es', s'))"
      and 2: "upd \<or> ?g = 0"
      by blast+
    from waitFor_update_of_tries [where turn = turn and ?e0.0 = e0 and ?e1.0 = e1 and s = s
        and es = es and tries = tries and es' = es' and s' = s' and upd = upd and e = e
        and es'' = es'', OF 1 2]
    show "4 \<le> spin_sample (unat tries) \<and> spin_sample (unat tries) \<le> 2000
      \<and> (2000 \<le> unat tries \<longrightarrow> spin_sample (unat tries) = 4)
      \<and> (?g = 0 \<longrightarrow>
           waitFor turn upd (e0 # e1 # es) s
             = Some (Inr (s'\<lparr>spinCutoff := of_nat (spin_sample (unat tries))\<rparr>)))
      \<and> (?g \<noteq> 0 \<and> es' = e # es'' \<longrightarrow>
           (\<exists>c. uint c = moving_average (uint ?g) (int (spin_sample (unat tries)))
              \<and> waitFor turn upd (e0 # e1 # es) s
                 = Some (Inr ((e s')\<lparr>spinCutoff :=
                      (if spinCutoff (e s') = ?g then c else spinCutoff (e s'))\<rparr>))))" .
  qed
  have B: "(upd \<or> ?g = 0)
      \<and> n \<le> length es \<and> n < 4294967296
      \<and> (\<forall>i<n. spins_or_parks turn maxSpins (of_nat i) (State (after (take i es) ?s1)))
      \<and> getTurnNumber (State (after (take n es) ?s1)) = turn \<longrightarrow>
      waitFor_loop turn maxSpins 0 (State ?s1) es ?s1
        = Some (Inr (of_nat n, drop n es, after (take n es) ?s1))
      \<and> (?g = 0 \<longrightarrow>
           waitFor turn upd (e0 # e1 # es) s
             = Some (Inr ((after (take n es) ?s1)\<lparr>spinCutoff := of_nat (spin_sample n)\<rparr>)))
      \<and> (?g \<noteq> 0 \<and> drop n es = e # es'' \<longrightarrow>
           (\<exists>c. uint c = moving_average (uint ?g) (int (spin_sample n))
              \<and> waitFor turn upd (e0 # e1 # es) s
                 = Some (Inr ((e (after (take n es) ?s1))\<lparr>spinCutoff :=
                      (if spinCutoff (e (after (take n es) ?s1)) = ?g
                       then c else spinCutoff (e (after (take n es) ?s1)))\<rparr>))))"
  proof (rule impI)
    assume b: "(upd \<or> ?g = 0)
      \<and> n \<le> length es \<and> n < 4294967296
      \<and> (\<forall>i<n. spins_or_parks turn maxSpins (of_nat i) (State (after (take i es) ?s1)))
      \<and> getTurnNumber (State (after (take n es) ?s1)) = turn"
    then have en: "upd \<or> ?g = 0" and le: "n \<le> length es" and lt: "n < 4294967296"
      and rounds: "\<forall>i<n. spins_or_parks turn maxSpins (0 + of_nat i) (State (after (take i es) ?s1))"
      and last: "getTurnNumber (State (after (take n es) ?s1)) = turn"
      by simp_all
    have "waitFor_loop turn maxSpins 0 (State ?s1) es ?s1
        = Some (Inr (0 + of_nat n, drop n es, after (take n es) ?s1))"
      using le rounds last by (rule waitFor_loop_counts)
    then have loop: "waitFor_loop turn maxSpins 0 (State ?s1) es ?s1
        = Some (Inr (of_nat n, drop n es, after (take n es) ?s1))"
      by simp
    have u: "unat (of_nat n :: uint32) = n"
      using lt by (rule unat_tries)
    from A [of "of_nat n" "drop n es" "after (take n es) ?s1" e es''] en loop
    show "waitFor_loop turn maxSpins 0 (State ?s1) es ?s1
        = Some (Inr (of_nat n, drop n es, after (take n es) ?s1))
      \<and> (?g = 0 \<longrightarrow>
           waitFor turn upd (e0 # e1 # es) s
             = Some (Inr ((after (take n es) ?s1)\<lparr>spinCutoff := of_nat (spin_sample n)\<rparr>)))
      \<and> (?g \<noteq> 0 \<and> drop n es = e # es'' \<longrightarrow>
           (\<exists>c. uint c = moving_average (uint ?g) (int (spin_sample n))
              \<and> waitFor turn upd (e0 # e1 # es) s
                 = Some (Inr ((e (after (take n es) ?s1))\<lparr>spinCutoff :=
                      (if spinCutoff (e (after (take n es) ?s1)) = ?g
                       then c else spinCutoff (e (after (take n es) ?s1)))\<rparr>))))"
      unfolding u by blast
  qed
  have C: "getTurnNumber state = turn \<longrightarrow>
        waitFor_loop turn spinCount t state rs r = Some (Inr (t, rs, r))"
    by (cases rs) (simp_all add: Let_def)
  have D: "spins_or_parks turn spinCount t state \<longrightarrow>
        waitFor_loop turn spinCount t state (e # rs) r
          = waitFor_loop turn spinCount (t + 1) (State (e r)) rs (e r)"
    by (rule impI) (rule waitFor_loop_round)
  have E: "getTurnNumber state \<noteq> turn \<and> turn - getTurnNumber state < maxWait
        \<and> \<not> t < spinCount \<and> \<not> turn - getTurnNumber state \<le> getTurnWait state
        \<and> state \<noteq> encodeTurn (getTurnNumber state) (turn - getTurnNumber state)
        \<and> State (e r) \<noteq> state \<longrightarrow>
        waitFor_loop turn spinCount t state (e # rs) r
          = waitFor_loop turn spinCount (t + 1) (State (e r)) rs (e r)"
    by (rule impI) (elim conjE, rule waitFor_loop_cas_lost)
  have F: "getTurnNumber state \<noteq> turn \<and> turn - getTurnNumber state < maxWait
        \<and> \<not> t < spinCount \<and> \<not> turn - getTurnNumber state \<le> getTurnWait state
        \<and> state \<noteq> encodeTurn (getTurnNumber state) (turn - getTurnNumber state)
        \<and> State (e r) = state \<longrightarrow>
        waitFor_loop turn spinCount t state (e # e' # rs) r
          = waitFor_loop turn spinCount (t + 1)
              (State (e' ((e r)\<lparr>State := encodeTurn (getTurnNumber state) (turn - getTurnNumber state)\<rparr>)))
              rs (e' ((e r)\<lparr>State := encodeTurn (getTurnNumber state) (turn - getTurnNumber state)\<rparr>))"
    by (rule impI) (elim conjE, rule waitFor_loop_cas_won)
  from A B C D E F show ?thesis
    by (intro conjI)
qed

theorem waitFor_updates_spin_cutoff_witness:
  "waitFor 1 False (id # id # replicate 4 id @ [\<lambda>s. s\<lparr>State := 64\<rparr>]) \<lparr>State = 0, spinCutoff = 0\<rparr>
     = Some (Inr \<lparr>State = 64, spinCutoff = 10\<rparr>)
   \<and> waitFor 1 False (id # id # replicate 2 id @ [\<lambda>s. s\<lparr>State := 64\<rparr>]) \<lparr>State = 0, spinCutoff = 0\<rparr>
     = Some (Inr \<lparr>State = 64, spinCutoff = 6\<rparr>)
   \<and> waitFor 1 True (id # id # replicate 9 id @ [\<lambda>s. s\<lparr>State := 64\<rparr>, id])
       \<lparr>State = 0, spinCutoff = 100\<rparr>
     = Some (Inr \<lparr>State = 64, spinCutoff = 90\<rparr>)
   \<and> waitFor 1 False (id # id # replicate 1998 id @ [\<lambda>s. s\<lparr>State := 64\<rparr>]) \<lparr>State = 0, spinCutoff = 0\<rparr>
     = Some (Inr \<lparr>State = 64, spinCutoff = 2000\<rparr>)
   \<and> waitFor 1 False (id # id # replicate 1999 id @ [\<lambda>s. s\<lparr>State := 64\<rparr>]) \<lparr>State = 0, spinCutoff = 0\<rparr>
     = Some (Inr \<lparr>State = 64, spinCutoff = 4\<rparr>)
   \<and> waitFor_loop 1 4 7 64 [id] \<lparr>State = 64, spinCutoff = 0\<rparr>
     = Some (Inr (7, [id], \<lparr>State = 64, spinCutoff = 0\<rparr>))
   \<and> waitFor_loop 1 4 0 0 [\<lambda>s. s\<lparr>State := 64\<rparr>] \<lparr>State = 0, spinCutoff = 0\<rparr>
     = Some (Inr (1, [], \<lparr>State = 64, spinCutoff = 0\<rparr>))
   \<and> waitFor_loop 1 0 0 0 [\<lambda>s. s\<lparr>State := 64\<rparr>] \<lparr>State = 0, spinCutoff = 0\<rparr>
     = Some (Inr (1, [], \<lparr>State = 64, spinCutoff = 0\<rparr>))
   \<and> waitFor_loop 1 0 0 0 [id, \<lambda>s. s\<lparr>State := 64\<rparr>] \<lparr>State = 0, spinCutoff = 0\<rparr>
     = Some (Inr (1, [], \<lparr>State = 64, spinCutoff = 0\<rparr>))"
proof -
  let ?bump = "\<lambda>s. s\<lparr>State := 64\<rparr>"
  let ?s0 = "\<lparr>State = 0, spinCutoff = 0\<rparr>"
  let ?s1 = "\<lparr>State = 64, spinCutoff = 0\<rparr>"
  let ?g0 = "\<lparr>State = 0, spinCutoff = 100\<rparr>"
  note facts = spins_or_parks_def turn_numbers maxWait_val tries_below_maxSpins spin_sample_def
  have five: "waitFor 1 False (id # id # replicate 4 id @ [?bump]) ?s0
     = Some (Inr \<lparr>State = 64, spinCutoff = 10\<rparr>)"
    using waitFor_updates_spin_cutoff [where turn = 1 and upd = False and ?e0.0 = id and ?e1.0 = id and s = ?s0
        and es = "replicate 4 id @ [?bump]" and n = 5,
        THEN conjunct2, THEN conjunct1]
    by (simp add: facts del: waitFor.simps waitFor_loop.simps)
  have "waitFor_loop 1 maxSpins 0 (State (id (id ?s0))) (replicate 2 id @ [?bump]) (id (id ?s0))
     = Some (Inr (3, [], ?s1))"
    using waitFor_updates_spin_cutoff [where turn = 1 and upd = False and ?e0.0 = id and ?e1.0 = id and s = ?s0
        and es = "replicate 2 id @ [?bump]" and n = 3,
        THEN conjunct2, THEN conjunct1]
    by (simp add: facts del: waitFor.simps waitFor_loop.simps)
  then have three: "waitFor 1 False (id # id # replicate 2 id @ [?bump]) ?s0
     = Some (Inr \<lparr>State = 64, spinCutoff = 6\<rparr>)"
    using waitFor_updates_spin_cutoff [where turn = 1 and upd = False and ?e0.0 = id
        and ?e1.0 = id and s = ?s0 and es = "replicate 2 id @ [?bump]" and tries = 3
        and es' = "[]" and s' = ?s1, THEN conjunct1]
    by (simp add: facts del: waitFor.simps waitFor_loop.simps)
  have "\<exists>c :: uint32. uint c = 90
      \<and> waitFor 1 True (id # id # replicate 9 id @ [?bump, id]) ?g0
          = Some (Inr \<lparr>State = 64, spinCutoff = c\<rparr>)"
    using waitFor_updates_spin_cutoff [where turn = 1 and upd = True and ?e0.0 = id and ?e1.0 = id and s = ?g0
        and es = "replicate 9 id @ [?bump, id]" and n = 10 and e = id and es'' = "[]",
        THEN conjunct2, THEN conjunct1]
    by (simp add: facts moving_average_def del: waitFor.simps waitFor_loop.simps)
  then obtain c :: uint32 where "uint c = 90"
    and w: "waitFor 1 True (id # id # replicate 9 id @ [?bump, id]) ?g0
          = Some (Inr \<lparr>State = 64, spinCutoff = c\<rparr>)"
    by blast
  then have "c = 90"
    by (simp add: word_uint_eq_iff)
  with w have ten: "waitFor 1 True (id # id # replicate 9 id @ [?bump, id]) ?g0
     = Some (Inr \<lparr>State = 64, spinCutoff = 90\<rparr>)"
    by (simp del: waitFor.simps)
  have below: "waitFor 1 False (id # id # replicate 1998 id @ [?bump]) ?s0
     = Some (Inr \<lparr>State = 64, spinCutoff = 2000\<rparr>)"
    using waitFor_updates_spin_cutoff [where turn = 1 and upd = False and ?e0.0 = id and ?e1.0 = id and s = ?s0
        and es = "replicate 1998 id @ [?bump]" and n = 1999,
        THEN conjunct2, THEN conjunct1]
    by (simp add: facts del: waitFor.simps waitFor_loop.simps)
  have reached: "waitFor 1 False (id # id # replicate 1999 id @ [?bump]) ?s0
     = Some (Inr \<lparr>State = 64, spinCutoff = 4\<rparr>)"
    using waitFor_updates_spin_cutoff [where turn = 1 and upd = False and ?e0.0 = id and ?e1.0 = id and s = ?s0
        and es = "replicate 1999 id @ [?bump]" and n = 2000,
        THEN conjunct2, THEN conjunct1]
    by (simp add: facts del: waitFor.simps waitFor_loop.simps)
  have ends: "waitFor_loop 1 4 t 64 rs ?s1 = Some (Inr (t, rs, ?s1))" for t rs
    using waitFor_updates_spin_cutoff [where turn = 1 and state = 64 and spinCount = 4
        and t = t and rs = rs and r = ?s1, THEN conjunct2, THEN conjunct2, THEN conjunct1]
    by (simp add: turn_numbers del: waitFor_loop.simps)
  have ends0: "waitFor_loop 1 0 t 64 rs ?s1 = Some (Inr (t, rs, ?s1))" for t rs
    using waitFor_updates_spin_cutoff [where turn = 1 and state = 64 and spinCount = 0
        and t = t and rs = rs and r = ?s1, THEN conjunct2, THEN conjunct2, THEN conjunct1]
    by (simp add: turn_numbers del: waitFor_loop.simps)
  have spin: "waitFor_loop 1 4 0 0 [?bump] ?s0 = Some (Inr (1, [], ?s1))"
    using waitFor_updates_spin_cutoff [where turn = 1 and state = 0 and spinCount = 4
        and t = 0 and rs = "[]" and r = ?s0 and e = ?bump,
        THEN conjunct2, THEN conjunct2, THEN conjunct2, THEN conjunct1]
      ends [of 1 "[]"]
    by (simp add: facts word_less_nat_alt del: waitFor_loop.simps)
  have lost: "waitFor_loop 1 0 0 0 [?bump] ?s0 = Some (Inr (1, [], ?s1))"
    using waitFor_updates_spin_cutoff [where turn = 1 and state = 0 and spinCount = 0
        and t = 0 and rs = "[]" and r = ?s0 and e = ?bump,
        THEN conjunct2, THEN conjunct2, THEN conjunct2, THEN conjunct2, THEN conjunct1]
      ends0 [of 1 "[]"]
    by (simp add: facts turn_words word_less_nat_alt word_le_nat_alt del: waitFor_loop.simps)
  have won: "waitFor_loop 1 0 0 0 [id, ?bump] ?s0 = Some (Inr (1, [], ?s1))"
    using waitFor_updates_spin_cutoff [where turn = 1 and state = 0 and spinCount = 0
        and t = 0 and rs = "[]" and r = ?s0 and e = id and e' = ?bump,
        THEN conjunct2, THEN conjunct2, THEN conjunct2, THEN conjunct2, THEN conjunct2]
      ends0 [of 1 "[]"]
    by (simp add: facts turn_words word_less_nat_alt word_le_nat_alt del: waitFor_loop.simps)
  show ?thesis
    by (intro conjI five three ten below reached ends spin lost won)
qed


section \<open>The blocking adapter: Prime, Cancel and Wait\<close>

lemma keeps_waiters_Cons:
  "keeps_waiters (e # es) \<longleftrightarrow> (\<forall>b. waiters (e b) = waiters b) \<and> keeps_waiters es"
  by (auto simp: keeps_waiters_def)

lemma keeps_counter_Cons:
  "keeps_counter (e # es) \<longleftrightarrow> (\<forall>b. counter (e b) = counter b) \<and> keeps_counter es"
  by (auto simp: keeps_counter_def)

lemma keeps_waiters_subset: "keeps_waiters es \<Longrightarrow> set es' \<subseteq> set es \<Longrightarrow> keeps_waiters es'"
  by (auto simp: keeps_waiters_def)

lemma keeps_counter_subset: "keeps_counter es \<Longrightarrow> set es' \<subseteq> set es \<Longrightarrow> keeps_counter es'"
  by (auto simp: keeps_counter_def)

subsection \<open>The read lock touches only the lock\<close>

lemma TryRLock_loop_frame:
  assumes "TryRLock_loop rd es b = Some (got, es', b')"
  shows "set es' \<subseteq> set es
    \<and> (keeps_waiters es \<longrightarrow> waiters b' = waiters b)
    \<and> (keeps_counter es \<longrightarrow> counter b' = counter b)"
  using assms
proof (induction es arbitrary: rd b)
  case Nil
  then show ?case
    by (simp split: if_splits)
next
  case (Cons e es)
  show ?case
  proof (cases "rd AND highBit \<noteq> 0")
    case True
    with Cons.prems show ?thesis
      by auto
  next
    case False
    show ?thesis
    proof (cases "lread (block_lock (e b)) = rd")
      case True
      with False Cons.prems show ?thesis
        by (auto simp: CompareAndSwapUint32_def Let_def keeps_waiters_Cons keeps_counter_Cons)
    next
      case ne: False
      let ?b1 = "(e b)\<lparr>block_lock := (block_lock (e b))\<lparr>lread := lread (block_lock (e b))\<rparr>\<rparr>"
      from ne False Cons.prems
      have "TryRLock_loop (lread (block_lock (e b))) es ?b1 = Some (got, es', b')"
        by (simp add: CompareAndSwapUint32_def Let_def)
      from Cons.IH [OF this] show ?thesis
        by (auto simp: keeps_waiters_Cons keeps_counter_Cons)
    qed
  qed
qed

lemma TryRLock_frame:
  assumes "TryRLock es b = Some (got, es', b')"
  shows "set es' \<subseteq> set es
    \<and> (keeps_waiters es \<longrightarrow> waiters b' = waiters b)
    \<and> (keeps_counter es \<longrightarrow> counter b' = counter b)"
proof (cases es)
  case Nil
  with assms show ?thesis by simp
next
  case (Cons e es0)
  with assms have "TryRLock_loop (lread (block_lock (e b))) es0 (e b) = Some (got, es', b')"
    by (simp add: Let_def)
  from TryRLock_loop_frame [OF this] Cons show ?thesis
    by (auto simp: keeps_waiters_Cons keeps_counter_Cons)
qed

lemma Unlock_fields [simp]: "waiters (Unlock b) = waiters b" "counter (Unlock b) = counter b"
  by (simp_all add: Unlock_def)

subsection \<open>Prime and Cancel\<close>




subsection \<open>Wait\<close>

lemma Wait_exit:
  "Wait primer es b = Some b' \<Longrightarrow>
     counter b' \<noteq> primer \<and> (keeps_waiters es \<longrightarrow> waiters b' = waiters b - 1)"
proof (induction primer es b rule: Wait.induct)
  case (1 primer b)
  then show ?case by simp
next
  case (2 primer e es b)
  let ?b1 = "e b"
  show ?case
  proof (cases "primer \<noteq> counter ?b1")
    case True
    with "2.prems" show ?thesis
      by (auto simp: Let_def keeps_waiters_Cons)
  next
    case same: False
    show ?thesis
    proof (cases "TryRLock es ?b1")
      case None
      with same "2.prems" show ?thesis
        by (simp add: Let_def)
    next
      case (Some r)
      obtain got es' b2 where r: "r = (got, es', b2)"
        by (cases r) auto
      note fr = TryRLock_frame [OF Some [unfolded r]]
      have kw: "keeps_waiters es'" if "keeps_waiters (e # es)"
        using that fr by (auto simp: keeps_waiters_Cons intro: keeps_waiters_subset)
      have w2: "waiters b2 = waiters b" if "keeps_waiters (e # es)"
        using that fr by (simp add: keeps_waiters_Cons)
      show ?thesis
      proof (cases got)
        case False
        with same Some r "2.prems" have "Wait primer es' b2 = Some b'"
          by (simp add: Let_def)
        with "2.IH"(1) [OF refl _ Some [unfolded r] refl refl] same False
        have "counter b' \<noteq> primer \<and> (keeps_waiters es' \<longrightarrow> waiters b' = waiters b2 - 1)"
          by simp
        with kw w2 show ?thesis
          by auto
      next
        case True
        show ?thesis
        proof (cases "primer \<noteq> counter b2")
          case changed: True
          with same Some r True "2.prems" have "b' = Unlock (b2\<lparr>waiters := waiters b2 + (- 1)\<rparr>)"
            by (simp add: Let_def)
          with changed w2 show ?thesis
            by auto
        next
          case still: False
          with same Some r True "2.prems" have "Wait primer es' (Unlock b2) = Some b'"
            by (simp add: Let_def)
          with "2.IH"(2) [OF refl _ Some [unfolded r] refl refl] same True still
          have "counter b' \<noteq> primer
              \<and> (keeps_waiters es' \<longrightarrow> waiters b' = waiters (Unlock b2) - 1)"
            by simp
          with kw w2 show ?thesis
            by auto
        qed
      qed
    qed
  qed
qed

text \<open>While no other goroutine changes the counter, the call does not return.\<close>

lemma Wait_blocks:
  "keeps_counter es \<Longrightarrow> counter b = primer \<Longrightarrow> Wait primer es b = None"
proof (induction primer es b rule: Wait.induct)
  case (1 primer b)
  then show ?case by simp
next
  case (2 primer e es b)
  from "2.prems" have same: "\<not> primer \<noteq> counter (e b)" and kc: "keeps_counter es"
    by (simp_all add: keeps_counter_Cons)
  show ?case
  proof (cases "TryRLock es (e b)")
    case None
    with same show ?thesis
      by (simp add: Let_def)
  next
    case (Some r)
    obtain got es' b2 where r: "r = (got, es', b2)"
      by (cases r) auto
    note fr = TryRLock_frame [OF Some [unfolded r]]
    from fr kc have kc': "keeps_counter es'" and c2: "counter b2 = primer"
      using same by (auto intro: keeps_counter_subset)
    show ?thesis
    proof (cases got)
      case False
      from "2.IH"(1) [OF refl same Some [unfolded r] refl refl _ kc' c2] False
      have "Wait primer es' b2 = None"
        by simp
      with same Some r False show ?thesis
        by (simp add: Let_def)
    next
      case True
      from c2 have still: "\<not> primer \<noteq> counter b2"
        by simp
      have "counter (Unlock b2) = primer"
        using c2 by simp
      from "2.IH"(2) [OF refl same Some [unfolded r] refl refl _ still kc' this] True
      have "Wait primer es' (Unlock b2) = None"
        by simp
      with same Some r True still show ?thesis
        by (simp add: Let_def)
    qed
  qed
qed

text \<open>
  What \<open>TryRLock\<close> and \<open>Wait\<close> consume of a schedule: the result depends on the entries
  consumed only, and \<open>TryRLock\<close> does not write \<open>waiters\<close>.
\<close>

lemma TryRLock_loop_used:
  assumes "TryRLock_loop rd es b = Some (got, es', b2)"
  shows "\<exists>used. es = used @ es'
     \<and> (\<forall>ext. TryRLock_loop rd (used @ ext) b = Some (got, ext, b2))
     \<and> (\<forall>ds. list_all2 adds_waiters used ds \<longrightarrow> waiters b2 = waiters b + sum_list ds)"
  using assms
proof (induction es arbitrary: rd b)
  case Nil
  then have h: "rd AND highBit \<noteq> 0" and r: "got = False" "es' = []" "b2 = b"
    by (simp_all split: if_splits)
  have "TryRLock_loop rd ext b = Some (False, ext, b)" for ext
    using h by (cases ext) simp_all
  with r show ?case
    by simp
next
  case (Cons e es)
  show ?case
  proof (cases "rd AND highBit \<noteq> 0")
    case True
    with Cons.prems have r: "got = False" "es' = e # es" "b2 = b"
      by simp_all
    have "TryRLock_loop rd ext b = Some (False, ext, b)" for ext
      using True by (cases ext) simp_all
    with r show ?thesis
      by simp
  next
    case False
    show ?thesis
    proof (cases "lread (block_lock (e b)) = rd")
      case True
      with False Cons.prems have r: "got = True" "es' = es"
        "b2 = (e b)\<lparr>block_lock := (block_lock (e b))\<lparr>lread := rd + 1\<rparr>\<rparr>"
        by (simp_all add: CompareAndSwapUint32_def Let_def)
      have "TryRLock_loop rd ([e] @ ext) b = Some (got, ext, b2)" for ext
        using True False r by (simp add: CompareAndSwapUint32_def Let_def)
      moreover have "waiters b2 = waiters b + sum_list ds" if "list_all2 adds_waiters [e] ds" for ds
        using that r by (auto simp: list_all2_Cons1 adds_waiters_def)
      ultimately show ?thesis
        using r by (intro exI [of _ "[e]"]) simp
    next
      case ne: False
      let ?b1 = "(e b)\<lparr>block_lock := (block_lock (e b))\<lparr>lread := lread (block_lock (e b))\<rparr>\<rparr>"
      have b1: "?b1 = e b"
        by simp
      from ne False Cons.prems
      have "TryRLock_loop (lread (block_lock (e b))) es (e b) = Some (got, es', b2)"
        by (simp add: CompareAndSwapUint32_def Let_def)
      from Cons.IH [OF this] obtain used where u: "es = used @ es'"
        and x: "\<And>ext. TryRLock_loop (lread (block_lock (e b))) (used @ ext) (e b) = Some (got, ext, b2)"
        and w: "\<And>ds. list_all2 adds_waiters used ds \<Longrightarrow> waiters b2 = waiters (e b) + sum_list ds"
        by blast
      have "TryRLock_loop rd ((e # used) @ ext) b = Some (got, ext, b2)" for ext
        using ne False x [of ext] by (simp add: CompareAndSwapUint32_def Let_def)
      moreover have "waiters b2 = waiters b + sum_list ds" if "list_all2 adds_waiters (e # used) ds" for ds
        using that w by (auto simp: list_all2_Cons1 adds_waiters_def)
      ultimately show ?thesis
        using u by (intro exI [of _ "e # used"]) simp
    qed
  qed
qed

lemma TryRLock_used:
  assumes "TryRLock es b = Some (got, es', b2)"
  shows "\<exists>used. es = used @ es' \<and> used \<noteq> []
     \<and> (\<forall>ext. TryRLock (used @ ext) b = Some (got, ext, b2))
     \<and> (\<forall>ds. list_all2 adds_waiters used ds \<longrightarrow> waiters b2 = waiters b + sum_list ds)"
proof (cases es)
  case Nil
  with assms show ?thesis by simp
next
  case (Cons e es0)
  with assms have "TryRLock_loop (lread (block_lock (e b))) es0 (e b) = Some (got, es', b2)"
    by (simp add: Let_def)
  from TryRLock_loop_used [OF this] obtain used where u: "es0 = used @ es'"
    and x: "\<And>ext. TryRLock_loop (lread (block_lock (e b))) (used @ ext) (e b) = Some (got, ext, b2)"
    and w: "\<And>ds. list_all2 adds_waiters used ds \<Longrightarrow> waiters b2 = waiters (e b) + sum_list ds"
    by blast
  have "TryRLock ((e # used) @ ext) b = Some (got, ext, b2)" for ext
    using x [of ext] by (simp add: Let_def)
  moreover have "waiters b2 = waiters b + sum_list ds" if "list_all2 adds_waiters (e # used) ds" for ds
    using that w by (auto simp: list_all2_Cons1 adds_waiters_def)
  ultimately show ?thesis
    using u Cons by (intro exI [of _ "e # used"]) simp
qed


lemma Wait_extend:
  "Wait primer es b = Some b' \<Longrightarrow> Wait primer (es @ ext) b = Some b'"
proof (induction primer es b rule: Wait.induct)
  case (1 primer b)
  then show ?case by simp
next
  case (2 primer e es b)
  show ?case
  proof (cases "primer \<noteq> counter (e b)")
    case True
    with "2.prems" show ?thesis
      by (simp add: Let_def)
  next
    case same: False
    show ?thesis
    proof (cases "TryRLock es (e b)")
      case None
      with same "2.prems" show ?thesis
        by (simp add: Let_def)
    next
      case (Some r)
      obtain got es' b2 where r: "r = (got, es', b2)"
        by (cases r) auto
      from TryRLock_used [OF Some [unfolded r]] obtain used where u: "es = used @ es'"
        and x: "\<And>ext. TryRLock (used @ ext) (e b) = Some (got, ext, b2)"
        by blast
      have t: "TryRLock (es @ ext) (e b) = Some (got, es' @ ext, b2)"
        using x [of "es' @ ext"] u by simp
      show ?thesis
      proof (cases got)
        case False
        with same Some r "2.prems" have "Wait primer es' b2 = Some b'"
          by (simp add: Let_def)
        with "2.IH"(1) [OF refl _ Some [unfolded r] refl refl] same False
        have "Wait primer (es' @ ext) b2 = Some b'"
          by simp
        with same t False show ?thesis
          by (simp add: Let_def)
      next
        case True
        show ?thesis
        proof (cases "primer \<noteq> counter b2")
          case changed: True
          with same Some r True "2.prems" t show ?thesis
            by (simp add: Let_def)
        next
          case still: False
          with same Some r True "2.prems" have "Wait primer es' (Unlock b2) = Some b'"
            by (simp add: Let_def)
          with "2.IH"(2) [OF refl _ Some [unfolded r] refl refl] same True still
          have "Wait primer (es' @ ext) (Unlock b2) = Some b'"
            by simp
          with same t True still show ?thesis
            by (simp add: Let_def)
        qed
      qed
    qed
  qed
qed

lemma Wait_decrements:
  "Wait primer es b = Some b' \<Longrightarrow> Wait primer (butlast es) b = None
     \<Longrightarrow> list_all2 adds_waiters es ds \<Longrightarrow> waiters b' = waiters b + sum_list ds - 1"
proof (induction primer es b arbitrary: ds rule: Wait.induct)
  case (1 primer b)
  then show ?case by simp
next
  case (2 primer e es b)
  from "2.prems"(3) obtain d ds0 where ds: "ds = d # ds0" and d: "adds_waiters e d"
    and ds0: "list_all2 adds_waiters es ds0"
    by (auto simp: list_all2_Cons1)
  from d have wd: "waiters (e b) = waiters b + d"
    by (simp add: adds_waiters_def)
  show ?case
  proof (cases "primer \<noteq> counter (e b)")
    case True
    have "es = []"
    proof (rule ccontr)
      assume "es \<noteq> []"
      with True "2.prems"(2) show False
        by (simp add: Let_def)
    qed
    with True "2.prems"(1) ds ds0 wd show ?thesis
      by (auto simp: Let_def)
  next
    case same: False
    show ?thesis
    proof (cases "TryRLock es (e b)")
      case None
      with same "2.prems" show ?thesis
        by (simp add: Let_def)
    next
      case (Some r)
      obtain got es' b2 where r: "r = (got, es', b2)"
        by (cases r) auto
      from TryRLock_used [OF Some [unfolded r]] obtain used where u: "es = used @ es'"
        and ne: "used \<noteq> []"
        and x: "\<And>ext. TryRLock (used @ ext) (e b) = Some (got, ext, b2)"
        and w: "\<And>ds. list_all2 adds_waiters used ds \<Longrightarrow> waiters b2 = waiters (e b) + sum_list ds"
        by blast
      from ds0 u obtain du ds' where dsplit: "ds0 = du @ ds'"
        and du: "list_all2 adds_waiters used du" and ds': "list_all2 adds_waiters es' ds'"
        by (auto simp: list_all2_append1)
      have w2: "waiters b2 = waiters b + d + sum_list du"
        using w [OF du] wd by simp
      have bl: "butlast (e # es) = e # used @ butlast es'" if "es' \<noteq> []"
        using that u ne by (simp add: butlast_append)
      have t: "TryRLock (used @ butlast es') (e b) = Some (got, butlast es', b2)"
        by (rule x)
      show ?thesis
      proof (cases got)
        case False
        with same Some r "2.prems" have ret: "Wait primer es' b2 = Some b'"
          by (simp add: Let_def)
        have "Wait primer (butlast es') b2 = None"
        proof (cases "es' = []")
          case True
          then show ?thesis by simp
        next
          case nonempty: False
          from "2.prems"(2) bl [OF nonempty] same t False show ?thesis
            by (simp add: Let_def)
        qed
        with "2.IH"(1) [OF refl _ Some [unfolded r] refl refl _ ret _ ds'] same False
        have "waiters b' = waiters b2 + sum_list ds' - 1"
          by simp
        with w2 ds dsplit show ?thesis
          by simp
      next
        case True
        show ?thesis
        proof (cases "primer \<noteq> counter b2")
          case changed: True
          have "es' = []"
          proof (rule ccontr)
            assume nonempty: "es' \<noteq> []"
            from "2.prems"(2) bl [OF nonempty] same t True changed show False
              by (simp add: Let_def)
          qed
          with ds' have "ds' = []"
            by simp
          moreover from same Some r True changed "2.prems"(1)
          have "b' = Unlock (b2\<lparr>waiters := waiters b2 + (- 1)\<rparr>)"
            by (simp add: Let_def)
          ultimately show ?thesis
            using w2 ds dsplit by simp
        next
          case still: False
          with same Some r True "2.prems" have ret: "Wait primer es' (Unlock b2) = Some b'"
            by (simp add: Let_def)
          have "Wait primer (butlast es') (Unlock b2) = None"
          proof (cases "es' = []")
            case True
            then show ?thesis by simp
          next
            case nonempty: False
            from "2.prems"(2) bl [OF nonempty] same t True still show ?thesis
              by (simp add: Let_def)
          qed
          with "2.IH"(2) [OF refl _ Some [unfolded r] refl refl _ _ ret _ ds'] same True still
          have "waiters b' = waiters (Unlock b2) + sum_list ds' - 1"
            by simp
          with w2 ds dsplit show ?thesis
            by simp
        qed
      qed
    qed
  qed
qed

lemma Wait_consumed:
  assumes r: "Wait primer es b = Some b'" and a: "list_all2 adds_waiters es ds"
  shows "\<exists>n\<le>length es. (\<forall>m<n. Wait primer (take m es) b = None)
            \<and> Wait primer (take n es) b = Some b'
            \<and> waiters b' = waiters b + sum_list (take n ds) - 1"
proof -
  define n where "n = (LEAST n. Wait primer (take n es) b \<noteq> None)"
  have ex: "Wait primer (take (length es) es) b \<noteq> None"
    using r by simp
  have some: "Wait primer (take n es) b \<noteq> None"
    unfolding n_def using ex by (rule LeastI)
  have le: "n \<le> length es"
    unfolding n_def using ex by (rule Least_le)
  have less: "Wait primer (take m es) b = None" if "m < n" for m
    using not_less_Least [of m "\<lambda>n. Wait primer (take n es) b \<noteq> None"] that
    unfolding n_def by blast
  from some obtain b'' where b'': "Wait primer (take n es) b = Some b''"
    by blast
  from Wait_extend [OF this, of "drop n es"] r have eq: "b'' = b'"
    by simp
  have pos: "0 < n"
  proof (rule ccontr)
    assume "\<not> 0 < n"
    with some show False by simp
  qed
  have "butlast (take n es) = take (n - 1) es"
    using le by (simp add: butlast_take)
  with less [of "n - 1"] pos have none: "Wait primer (butlast (take n es)) b = None"
    by simp
  have "list_all2 adds_waiters (take n es) (take n ds)"
    using a by (rule list_all2_takeI)
  from Wait_decrements [OF b'' [unfolded eq] none this]
  show ?thesis
    using le less b'' eq by blast
qed

text \<open>
  Claim C10. (1) A call of \<open>Wait\<close> that returns leaves a counter different from \<open>primer\<close>:
  on both exits the last thing it read was a counter that differs, and it does not
  write the counter. With no other goroutine changing \<open>waiters\<close> meanwhile, \<open>waiters\<close> is
  one less than before the call.
  (2) On the first exit, where the load after \<open>Gosched\<close> finds a counter that differs, the
  call returns the state found with \<open>waiters\<close> one less.
  (3) On the second exit, where the counter differs under the read lock, it returns the
  state that \<open>TryRLock\<close> left, with \<open>waiters\<close> one less and the read lock released. Both
  hold whatever the other goroutines did to \<open>waiters\<close>.
  (4) Let the other goroutines change \<open>waiters\<close> too, each entry of the schedule adding
  its amount (\<open>ds\<close> lists the amounts). A call that returns has consumed the first \<open>n\<close>
  entries of the schedule, for the one \<open>n\<close> such that it returns on these and on no
  fewer, and \<open>waiters\<close> at the return is \<open>waiters\<close> at the call, plus what these \<open>n\<close>
  entries added, minus one: the call's own part is exactly one decrement.
  (5) While no other goroutine changes a counter that equals \<open>primer\<close>, the call does not
  return.
\<close>

theorem Wait_returns:
  "(Wait primer es b = Some b' \<longrightarrow>
      counter b' \<noteq> primer \<and> (keeps_waiters es \<longrightarrow> waiters b' = waiters b - 1))
   \<and> (counter (e b) \<noteq> primer \<longrightarrow>
        Wait primer (e # es) b = Some ((e b)\<lparr>waiters := waiters (e b) - 1\<rparr>))
   \<and> (counter (e b) = primer \<and> TryRLock es (e b) = Some (True, es', b2)
        \<and> counter b2 \<noteq> primer \<longrightarrow>
        Wait primer (e # es) b = Some (Unlock (b2\<lparr>waiters := waiters b2 - 1\<rparr>)))
   \<and> (Wait primer es b = Some b' \<and> list_all2 adds_waiters es ds \<longrightarrow>
        (\<exists>n\<le>length es. (\<forall>m<n. Wait primer (take m es) b = None)
            \<and> Wait primer (take n es) b = Some b'
            \<and> waiters b' = waiters b + sum_list (take n ds) - 1))
   \<and> (keeps_counter es \<and> counter b = primer \<longrightarrow> Wait primer es b = None)"
proof -
  have c1: "Wait primer es b = Some b' \<longrightarrow>
      counter b' \<noteq> primer \<and> (keeps_waiters es \<longrightarrow> waiters b' = waiters b - 1)"
    by (rule impI) (rule Wait_exit)
  have c2: "counter (e b) \<noteq> primer \<longrightarrow>
        Wait primer (e # es) b = Some ((e b)\<lparr>waiters := waiters (e b) - 1\<rparr>)"
    by (auto simp: Let_def)
  have c3: "counter (e b) = primer \<and> TryRLock es (e b) = Some (True, es', b2)
        \<and> counter b2 \<noteq> primer \<longrightarrow>
        Wait primer (e # es) b = Some (Unlock (b2\<lparr>waiters := waiters b2 - 1\<rparr>))"
    by (auto simp: Let_def)
  have c4: "Wait primer es b = Some b' \<and> list_all2 adds_waiters es ds \<longrightarrow>
        (\<exists>n\<le>length es. (\<forall>m<n. Wait primer (take m es) b = None)
            \<and> Wait primer (take n es) b = Some b'
            \<and> waiters b' = waiters b + sum_list (take n ds) - 1)"
    by (rule impI) (erule conjE, rule Wait_consumed)
  have c5: "keeps_counter es \<and> counter b = primer \<longrightarrow> Wait primer es b = None"
    by (rule impI) (simp add: Wait_blocks del: Wait.simps)
  from c1 c2 c3 c4 c5 show ?thesis
    by (intro conjI)
qed

theorem Wait_returns_witness:
  "Wait 5 [(\<lambda>b. b\<lparr>counter := 6, waiters := waiters b - 1\<rparr>)]
      \<lparr>waiters = 2, counter = 5, block_lock = \<lparr>lwrite = 0, lread = 0\<rparr>\<rparr>
     = Some \<lparr>waiters = 0, counter = 6, block_lock = \<lparr>lwrite = 0, lread = 0\<rparr>\<rparr>
   \<and> Wait 5 [id, id, (\<lambda>b. b\<lparr>counter := 6, waiters := waiters b + 3\<rparr>)]
      \<lparr>waiters = 2, counter = 5, block_lock = \<lparr>lwrite = 0, lread = 0\<rparr>\<rparr>
     = Some \<lparr>waiters = 4, counter = 6, block_lock = \<lparr>lwrite = 0, lread = 0\<rparr>\<rparr>
   \<and> (\<exists>n\<le>3.
         (\<forall>m<n. Wait 5 (take m [id, id, (\<lambda>b. b\<lparr>counter := 6, waiters := waiters b + 3\<rparr>)])
                       \<lparr>waiters = 2, counter = 5, block_lock = \<lparr>lwrite = 0, lread = 0\<rparr>\<rparr> = None)
         \<and> Wait 5 (take n [id, id, (\<lambda>b. b\<lparr>counter := 6, waiters := waiters b + 3\<rparr>)])
                       \<lparr>waiters = 2, counter = 5, block_lock = \<lparr>lwrite = 0, lread = 0\<rparr>\<rparr>
             = Some \<lparr>waiters = 4, counter = 6, block_lock = \<lparr>lwrite = 0, lread = 0\<rparr>\<rparr>
         \<and> waiters \<lparr>waiters = 4, counter = 6, block_lock = \<lparr>lwrite = 0, lread = 0\<rparr>\<rparr>
             = waiters \<lparr>waiters = 2, counter = 5, block_lock = \<lparr>lwrite = 0, lread = 0\<rparr>\<rparr>
                 + sum_list (take n [0, 0, 3]) - 1)
   \<and> Wait 5 [id, id, (\<lambda>b. b\<lparr>counter := 6\<rparr>)]
      \<lparr>waiters = 2, counter = 5, block_lock = \<lparr>lwrite = 0, lread = 0\<rparr>\<rparr>
     = Some \<lparr>waiters = 1, counter = 6, block_lock = \<lparr>lwrite = 0, lread = 0\<rparr>\<rparr>
   \<and> (6 :: uintptr) \<noteq> 5 \<and> (1 :: int32) = 2 - 1
   \<and> Wait 5 [id, id, id, id, id]
      \<lparr>waiters = 2, counter = 5, block_lock = \<lparr>lwrite = 0, lread = 0\<rparr>\<rparr> = None"
proof -
  let ?b = "\<lparr>waiters = 2, counter = 5, block_lock = \<lparr>lwrite = 0, lread = 0\<rparr>\<rparr>"
  let ?b' = "\<lparr>waiters = 1, counter = 6, block_lock = \<lparr>lwrite = 0, lread = 0\<rparr>\<rparr>"
  let ?b4 = "\<lparr>waiters = 4, counter = 6, block_lock = \<lparr>lwrite = 0, lread = 0\<rparr>\<rparr>"
  let ?bump = "\<lambda>b. b\<lparr>counter := 6\<rparr>"
  let ?leave = "\<lambda>b. b\<lparr>counter := 6, waiters := waiters b - 1\<rparr>"
  let ?join = "\<lambda>b. b\<lparr>counter := 6, waiters := waiters b + 3\<rparr>"
  have first: "Wait 5 [?leave] ?b
      = Some \<lparr>waiters = 0, counter = 6, block_lock = \<lparr>lwrite = 0, lread = 0\<rparr>\<rparr>"
    using Wait_returns [where primer = 5 and e = ?leave and es = "[]" and b = ?b,
        THEN conjunct2, THEN conjunct1]
    by (simp del: Wait.simps)
  have lock: "TryRLock [id, ?join] (id ?b)
      = Some (True, [], \<lparr>waiters = 5, counter = 6, block_lock = \<lparr>lwrite = 0, lread = 1\<rparr>\<rparr>)"
    by (simp add: Let_def CompareAndSwapUint32_def highBit_def)
  have second: "Wait 5 [id, id, ?join] ?b = Some ?b4"
    using lock Wait_returns [where primer = 5 and e = id and es = "[id, ?join]" and b = ?b
        and es' = "[]" and ?b2.0 = "\<lparr>waiters = 5, counter = 6, block_lock = \<lparr>lwrite = 0, lread = 1\<rparr>\<rparr>",
        THEN conjunct2, THEN conjunct2, THEN conjunct1]
    by (simp add: Unlock_def del: Wait.simps TryRLock.simps)
  have adds: "list_all2 adds_waiters [id, id, ?join] [0, 0, 3]"
    by (simp add: adds_waiters_def)
  have third: "\<exists>n\<le>3. (\<forall>m<n. Wait 5 (take m [id, id, ?join]) ?b = None)
         \<and> Wait 5 (take n [id, id, ?join]) ?b = Some ?b4
         \<and> waiters ?b4 = waiters ?b + sum_list (take n [0, 0, 3]) - 1"
    using Wait_returns [where primer = 5 and es = "[id, id, ?join]" and b = ?b
        and b' = ?b4 and ds = "[0, 0, 3]",
        THEN conjunct2, THEN conjunct2, THEN conjunct2, THEN conjunct1, THEN mp,
        OF conjI [OF second adds]]
    by (simp only: list.size One_nat_def add_Suc_right add_0_right numeral_3_eq_3)
  have fourth: "Wait 5 [id, id, ?bump] ?b = Some ?b'"
    by (simp add: Let_def CompareAndSwapUint32_def highBit_def Unlock_def)
  have kw: "keeps_waiters [id, id, ?bump]"
    by (simp add: keeps_waiters_def)
  have kc: "keeps_counter [id, id, id, id, id]"
    by (simp add: keeps_counter_def)
  from Wait_returns [where primer = 5 and es = "[id, id, ?bump]" and b = ?b and b' = ?b',
      THEN conjunct1] fourth kw
  have fifth: "counter ?b' \<noteq> 5 \<and> waiters ?b' = waiters ?b - 1"
    by (simp del: Wait.simps)
  from Wait_returns [where primer = 5 and es = "[id, id, id, id, id]" and b = ?b,
      THEN conjunct2, THEN conjunct2, THEN conjunct2, THEN conjunct2] kc
  have sixth: "Wait 5 [id, id, id, id, id] ?b = None"
    by (simp del: Wait.simps)
  from fifth have fifth': "(6 :: uintptr) \<noteq> 5" "(1 :: int32) = 2 - 1"
    by simp_all
  show ?thesis
    by (intro conjI first second third fourth fifth' sixth)
qed


end
